theory Spec2Isabelle
  imports Main "HOL-Library.Sublist" "HOL-Library.Multiset"
begin

section \<open>Text and the regular expressions of the rule table\<close>

text \<open>
  The script \<^verbatim>\<open>migrate_client.py\<close> copies a fixed list of files and rewrites namespace
  names in them with \<^verbatim>\<open>re.sub\<close>. File contents, paths and console lines are strings.
  A backslash cannot be written inside a string literal, so it has a name.
\<close>

abbreviation (input) bslash :: char where
  "bslash \<equiv> CHR 0x5C"

text \<open>
  Every pattern of \<^verbatim>\<open>NAMESPACE_REPLACEMENTS\<close> is made of letters and the escape
  \<^verbatim>\<open>\.\<close> only: as a regular expression it matches exactly one string, the pattern
  with the escaping backslashes taken out. \<open>re_literal\<close> computes that string and
  \<open>re_plain\<close> recognises the patterns of this form.
\<close>

fun re_literal :: "string \<Rightarrow> string" where
  "re_literal [] = []"
| "re_literal [c] = [c]"
| "re_literal (c # d # cs) =
     (if c = bslash then d # re_literal cs else c # re_literal (d # cs))"

definition is_letter :: "char \<Rightarrow> bool" where
  "is_letter c \<longleftrightarrow>
     c \<in> set (''abcdefghijklmnopqrstuvwxyz'' @ ''ABCDEFGHIJKLMNOPQRSTUVWXYZ'')"

fun re_plain :: "string \<Rightarrow> bool" where
  "re_plain [] = True"
| "re_plain [c] = is_letter c"
| "re_plain (c # d # cs) =
     (if c = bslash then d = CHR ''.'' \<and> re_plain cs
      else is_letter c \<and> re_plain (d # cs))"

text \<open>
  \<^verbatim>\<open>re.sub(pattern, repl, string)\<close> for a pattern that matches one literal string
  and a replacement without backslashes: scanning from the left, every match is
  replaced and the scan goes on behind the match, so the matches replaced do not
  overlap. An empty pattern matches at every position (Python gives
  \<^verbatim>\<open>re.sub('', 'x', 'ab') == 'xaxbx'\<close>).
\<close>

fun sub_all :: "string \<Rightarrow> string \<Rightarrow> string \<Rightarrow> string" where
  "sub_all pat repl [] = (if pat = [] then repl else [])"
| "sub_all pat repl (c # cs) =
     (if pat = [] then repl @ c # sub_all pat repl cs
      else if prefix pat (c # cs) then repl @ sub_all pat repl (drop (length pat - 1) cs)
      else c # sub_all pat repl cs)"

definition re_sub :: "string \<Rightarrow> string \<Rightarrow> string \<Rightarrow> string" where
  "re_sub pattern repl content = sub_all (re_literal pattern) repl content"

subsection \<open>The rule table and \<^verbatim>\<open>update_content\<close>\<close>

text \<open>The escape \<^verbatim>\<open>\.\<close> of the raw pattern strings.\<close>

abbreviation (input) esc_dot :: string where
  "esc_dot \<equiv> [bslash, CHR ''.'']"

definition NAMESPACE_REPLACEMENTS :: "(string \<times> string) list" where
  "NAMESPACE_REPLACEMENTS =
    [(''HartsysDatasetEditor'' @ esc_dot @ ''Client'' @ esc_dot @ ''Pages'',
      ''DatasetStudio.ClientApp.Features.Datasets.Pages''),
     (''HartsysDatasetEditor'' @ esc_dot @ ''Client'' @ esc_dot @ ''Components'' @ esc_dot @ ''Dataset'',
      ''DatasetStudio.ClientApp.Features.Datasets.Components''),
     (''HartsysDatasetEditor'' @ esc_dot @ ''Client'' @ esc_dot @ ''Components'' @ esc_dot @ ''Viewer'',
      ''DatasetStudio.ClientApp.Features.Datasets.Components''),
     (''HartsysDatasetEditor'' @ esc_dot @ ''Client'' @ esc_dot @ ''Components'' @ esc_dot @ ''Filter'',
      ''DatasetStudio.ClientApp.Features.Datasets.Components''),
     (''HartsysDatasetEditor'' @ esc_dot @ ''Client'' @ esc_dot @ ''Components'' @ esc_dot @ ''Dialogs'',
      ''DatasetStudio.ClientApp.Features.Datasets.Components''),
     (''HartsysDatasetEditor'' @ esc_dot @ ''Client'' @ esc_dot @ ''Components'' @ esc_dot @ ''Settings'',
      ''DatasetStudio.ClientApp.Features.Settings.Components''),
     (''HartsysDatasetEditor'' @ esc_dot @ ''Client'' @ esc_dot @ ''Components'' @ esc_dot @ ''Common'',
      ''DatasetStudio.ClientApp.Shared.Components''),
     (''HartsysDatasetEditor'' @ esc_dot @ ''Client'' @ esc_dot @ ''Layout'',
      ''DatasetStudio.ClientApp.Shared.Layout''),
     (''HartsysDatasetEditor'' @ esc_dot @ ''Client'' @ esc_dot @ ''Services'' @ esc_dot @ ''Api'',
      ''DatasetStudio.ClientApp.Services.ApiClients''),
     (''HartsysDatasetEditor'' @ esc_dot @ ''Client'' @ esc_dot @ ''Services'' @ esc_dot @ ''JsInterop'',
      ''DatasetStudio.ClientApp.Services.Interop''),
     (''HartsysDatasetEditor'' @ esc_dot @ ''Client'' @ esc_dot @ ''Services'' @ esc_dot @ ''StateManagement'',
      ''DatasetStudio.ClientApp.Services.StateManagement''),
     (''HartsysDatasetEditor'' @ esc_dot @ ''Client'' @ esc_dot @ ''Services'',
      ''DatasetStudio.ClientApp.Features.Datasets.Services''),
     (''HartsysDatasetEditor'' @ esc_dot @ ''Client'' @ esc_dot @ ''Extensions'',
      ''DatasetStudio.ClientApp.Extensions''),
     (''HartsysDatasetEditor'' @ esc_dot @ ''Client'',
      ''DatasetStudio.ClientApp''),
     (''HartsysDatasetEditor'' @ esc_dot @ ''Core'' @ esc_dot @ ''Models'',
      ''DatasetStudio.Core.DomainModels''),
     (''HartsysDatasetEditor'' @ esc_dot @ ''Core'' @ esc_dot @ ''Enums'',
      ''DatasetStudio.Core.Enumerations''),
     (''HartsysDatasetEditor'' @ esc_dot @ ''Core'' @ esc_dot @ ''Interfaces'',
      ''DatasetStudio.Core.Abstractions''),
     (''HartsysDatasetEditor'' @ esc_dot @ ''Core'' @ esc_dot @ ''Services'',
      ''DatasetStudio.Core.BusinessLogic''),
     (''HartsysDatasetEditor'' @ esc_dot @ ''Core'' @ esc_dot @ ''Services'' @ esc_dot @ ''Layouts'',
      ''DatasetStudio.Core.BusinessLogic.Layouts''),
     (''HartsysDatasetEditor'' @ esc_dot @ ''Core'' @ esc_dot @ ''Services'' @ esc_dot @ ''Parsers'',
      ''DatasetStudio.Core.BusinessLogic.Parsers''),
     (''HartsysDatasetEditor'' @ esc_dot @ ''Core'' @ esc_dot @ ''Services'' @ esc_dot @ ''Providers'',
      ''DatasetStudio.Core.BusinessLogic.Modality''),
     (''HartsysDatasetEditor'' @ esc_dot @ ''Core'',
      ''DatasetStudio.Core''),
     (''HartsysDatasetEditor'' @ esc_dot @ ''Contracts'',
      ''DatasetStudio.DTO'')]"

text \<open>
  \<^verbatim>\<open>for old_pattern, new_namespace in NAMESPACE_REPLACEMENTS:
    content = re.sub(old_pattern, new_namespace, content)\<close>
  The loop over a rule list, with the content as the accumulator.
\<close>

fun apply_rules :: "(string \<times> string) list \<Rightarrow> string \<Rightarrow> string" where
  "apply_rules [] content = content"
| "apply_rules ((old_pattern, new_namespace) # rules) content =
     apply_rules rules (re_sub old_pattern new_namespace content)"

definition update_content :: "string \<Rightarrow> string" where
  "update_content content = apply_rules NAMESPACE_REPLACEMENTS content"

section \<open>The file system and the console\<close>

text \<open>
  What the script sees of the operating system: a tree of directories and text files,
  addressed by path strings, a console, and the operations the operating system may
  refuse. A file holds the characters that are stored, line ends as they are on disk.
  A refusal (access denied, disk full, undecodable bytes, ...) is given per path with
  the text of the exception, \<^verbatim>\<open>str(e)\<close>; it is part of the input of a run. So are the
  text of the \<^verbatim>\<open>OSError\<close> that \<^verbatim>\<open>open\<close> raises when the tree does not allow to open
  a path in a mode (the wording depends on the platform), and \<^verbatim>\<open>os.linesep\<close>, the line
  end of the platform: LF on POSIX, CR LF on Windows.
\<close>

type_synonym path = string

datatype node = Dir | File string

record world =
  nodes :: "path \<Rightarrow> node option"
  mkdir_fault :: "path \<Rightarrow> string option"
  read_fault :: "path \<Rightarrow> string option"
  write_fault :: "path \<Rightarrow> string option"
  open_error :: "string \<Rightarrow> path \<Rightarrow> string"
  linesep :: string
  console :: "string list"

text \<open>A call either returns a value or raises an exception; both leave a world behind.\<close>

datatype 'a outcome = Returns 'a world | Raises string world

definition print_line :: "world \<Rightarrow> string \<Rightarrow> world" where
  "print_line w line = w\<lparr>console := console w @ [line]\<rparr>"

subsection \<open>Paths\<close>

text \<open>
  The base paths are Windows paths; on Windows both \<^verbatim>\<open>/\<close> and the backslash separate
  components. \<open>os_path_join\<close> is \<^verbatim>\<open>os.path.join\<close> for a second argument that is a
  relative path (no drive, no leading separator), as every entry of \<^verbatim>\<open>FILE_MAPPINGS\<close> is:
  the base, a backslash unless the base already ends with a separator, and the second
  argument. \<open>os_path_dirname\<close> is \<^verbatim>\<open>os.path.dirname\<close>: the text before the last
  separator, without the separators it ends with (the special treatment of a drive
  root is left out; no path below the base directories reaches it).
\<close>

definition is_sep :: "char \<Rightarrow> bool" where
  "is_sep c \<longleftrightarrow> c = CHR ''/'' \<or> c = bslash"

definition os_path_join :: "path \<Rightarrow> path \<Rightarrow> path" where
  "os_path_join base rel =
     (if base = [] \<or> is_sep (last base) then base @ rel else base @ [bslash] @ rel)"

fun before_last_sep :: "path \<Rightarrow> path option" where
  "before_last_sep [] = None"
| "before_last_sep (c # cs) =
     (case before_last_sep cs of
        Some head \<Rightarrow> Some (c # head)
      | None \<Rightarrow> if is_sep c then Some [] else None)"

fun rstrip_seps :: "path \<Rightarrow> path" where
  "rstrip_seps [] = []"
| "rstrip_seps (c # cs) =
     (let rest = rstrip_seps cs in if rest = [] \<and> is_sep c then [] else c # rest)"

definition os_path_dirname :: "path \<Rightarrow> path" where
  "os_path_dirname p = (case before_last_sep p of None \<Rightarrow> [] | Some head \<Rightarrow> rstrip_seps head)"

text \<open>A directory and every directory above it, innermost first.\<close>

function ancestors :: "path \<Rightarrow> path list" where
  "ancestors p = (if p = [] then [] else p # ancestors (os_path_dirname p))"
  by pat_completeness auto
termination
proof (relation "measure length")
  show "wf (measure length)"
    by simp
next
  fix p :: path
  assume nonempty: "p \<noteq> []"
  have shorter: "length h < length q" if "before_last_sep q = Some h" for q h
    using that by (induction q arbitrary: h) (auto split: option.splits if_splits)
  have stripped: "length (rstrip_seps q) \<le> length q" for q
    by (induction q) (auto simp: Let_def)
  have "length (os_path_dirname p) < length p"
  proof (cases "before_last_sep p")
    case None
    with nonempty show ?thesis by (simp add: os_path_dirname_def)
  next
    case (Some h)
    with shorter[OF Some] stripped[of h] show ?thesis by (simp add: os_path_dirname_def)
  qed
  then show "(os_path_dirname p, p) \<in> measure length"
    by simp
qed

declare ancestors.simps [simp del]

subsection \<open>The operating-system calls of the script\<close>

definition os_path_exists :: "world \<Rightarrow> path \<Rightarrow> bool" where
  "os_path_exists w p \<longleftrightarrow> nodes w p \<noteq> None"

definition is_file :: "world \<Rightarrow> path \<Rightarrow> bool" where
  "is_file w p \<longleftrightarrow> (case nodes w p of Some (File content) \<Rightarrow> True | _ \<Rightarrow> False)"

text \<open>
  \<^verbatim>\<open>os.makedirs(name, exist_ok=True)\<close>: nothing happens when the directory exists;
  otherwise it and the directories above it are created. It raises when the name is
  empty, when the operating system refuses to create the directory, or when a regular
  file sits at the name or at a directory above it. The script does not look at these
  exceptions; the ones that the tree causes are given by a class name.
\<close>

definition os_makedirs :: "world \<Rightarrow> path \<Rightarrow> string + world" where
  "os_makedirs w name =
     (if name = [] then Inl ''FileNotFoundError''
      else if nodes w name = Some Dir then Inr w
      else case mkdir_fault w name of
        Some e \<Rightarrow> Inl e
      | None \<Rightarrow>
          if list_ex (is_file w) (ancestors name) then Inl ''FileExistsError''
          else Inr (w\<lparr>nodes := (\<lambda>p. if p \<in> set (ancestors name) then Some Dir else nodes w p)\<rparr>))"

subsection \<open>Text files\<close>

text \<open>
  The script opens both files in text mode and gives no \<^verbatim>\<open>newline\<close> argument. On
  reading, Python then turns every CR LF and every other CR into LF (universal
  newlines); on writing, it turns every LF into \<^verbatim>\<open>os.linesep\<close>.
\<close>

abbreviation (input) CR :: char where
  "CR \<equiv> CHR 0x0D"

abbreviation (input) LF :: char where
  "LF \<equiv> CHR 0x0A"

fun universal_newlines :: "string \<Rightarrow> string" where
  "universal_newlines [] = []"
| "universal_newlines [c] = [if c = CR then LF else c]"
| "universal_newlines (c # d # cs) =
     (if c = CR \<and> d = LF then LF # universal_newlines cs
      else if c = CR then LF # universal_newlines (d # cs)
      else c # universal_newlines (d # cs))"

definition translate_newlines :: "string \<Rightarrow> string \<Rightarrow> string" where
  "translate_newlines sep s = concat (map (\<lambda>c. if c = LF then sep else [c]) s)"

text \<open>
  \<^verbatim>\<open>with open(src_path, 'r', encoding='utf-8') as f: content = f.read()\<close> gives the
  stored characters with the line ends read as LF, or raises; the exception is given
  by its text.
\<close>

definition read_text :: "world \<Rightarrow> path \<Rightarrow> string + string" where
  "read_text w p =
     (case read_fault w p of
        Some e \<Rightarrow> Inl e
      | None \<Rightarrow>
          (case nodes w p of
             Some (File stored) \<Rightarrow> Inr (universal_newlines stored)
           | Some Dir \<Rightarrow> Inl (open_error w ''r'' p)
           | None \<Rightarrow> Inl (open_error w ''r'' p)))"

text \<open>
  \<^verbatim>\<open>with open(dest_path, 'w', encoding='utf-8') as f: f.write(updated_content)\<close>
  creates the file or replaces its content, every LF written as \<^verbatim>\<open>os.linesep\<close>. It
  raises when the operating system refuses, when a directory sits at the path, or when
  the directory of the path does not exist; a refused \<^verbatim>\<open>open\<close> leaves the tree as it
  was.
\<close>

definition write_text :: "world \<Rightarrow> path \<Rightarrow> string \<Rightarrow> string + world" where
  "write_text w p content =
     (case write_fault w p of
        Some e \<Rightarrow> Inl e
      | None \<Rightarrow>
          if nodes w p = Some Dir then Inl (open_error w ''w'' p)
          else if nodes w (os_path_dirname p) \<noteq> Some Dir then Inl (open_error w ''w'' p)
          else Inr (w\<lparr>nodes := (nodes w)(p \<mapsto> File (translate_newlines (linesep w) content))\<rparr>))"

section \<open>The migration\<close>

abbreviation (input) bs :: string where
  "bs \<equiv> [bslash]"

definition SRC_BASE :: path where
  "SRC_BASE = ''c:'' @ bs @ ''Users'' @ bs @ ''kaleb'' @ bs @ ''OneDrive'' @ bs @ ''Desktop'' @ bs @
     ''Projects'' @ bs @ ''DatasetEditor'' @ bs @ ''src'' @ bs @ ''HartsysDatasetEditor.Client''"

definition DEST_BASE :: path where
  "DEST_BASE = ''c:'' @ bs @ ''Users'' @ bs @ ''kaleb'' @ bs @ ''OneDrive'' @ bs @ ''Desktop'' @ bs @
     ''Projects'' @ bs @ ''DatasetEditor'' @ bs @ ''src'' @ bs @ ''ClientApp''"

definition FILE_MAPPINGS :: "(string \<times> string) list" where
  "FILE_MAPPINGS =
    [(''Pages/MyDatasets.razor.cs'',
      ''Features/Datasets/Pages/DatasetLibrary.razor.cs''),
     (''Pages/DatasetViewer.razor'',
      ''Features/Datasets/Pages/DatasetViewer.razor''),
     (''Pages/DatasetViewer.razor.cs'',
      ''Features/Datasets/Pages/DatasetViewer.razor.cs''),
     (''Pages/CreateDataset.razor'',
      ''Features/Datasets/Pages/CreateDataset.razor''),
     (''Pages/AITools.razor'',
      ''Features/Datasets/Pages/AITools.razor''),
     (''Pages/Settings.razor'',
      ''Features/Settings/Pages/Settings.razor''),
     (''Components/Dataset/DatasetInfo.razor'',
      ''Features/Datasets/Components/DatasetInfo.razor''),
     (''Components/Dataset/DatasetStats.razor'',
      ''Features/Datasets/Components/DatasetStats.razor''),
     (''Components/Dataset/DatasetUploader.razor'',
      ''Features/Datasets/Components/DatasetUploader.razor''),
     (''Components/Dataset/DatasetUploader.razor.cs'',
      ''Features/Datasets/Components/DatasetUploader.razor.cs''),
     (''Components/Dataset/HuggingFaceDatasetOptions.razor'',
      ''Features/Datasets/Components/HuggingFaceDatasetOptions.razor''),
     (''Components/Viewer/ImageCard.razor'',
      ''Features/Datasets/Components/ImageCard.razor''),
     (''Components/Viewer/ImageCard.razor.cs'',
      ''Features/Datasets/Components/ImageCard.razor.cs''),
     (''Components/Viewer/ImageDetailPanel.razor'',
      ''Features/Datasets/Components/ImageDetailPanel.razor''),
     (''Components/Viewer/ImageDetailPanel.razor.cs'',
      ''Features/Datasets/Components/ImageDetailPanel.razor.cs''),
     (''Components/Viewer/ImageGrid.razor'',
      ''Features/Datasets/Components/ImageGrid.razor''),
     (''Components/Viewer/ImageGrid.razor.cs'',
      ''Features/Datasets/Components/ImageGrid.razor.cs''),
     (''Components/Viewer/ImageList.razor'',
      ''Features/Datasets/Components/ImageList.razor''),
     (''Components/Viewer/ImageLightbox.razor'',
      ''Features/Datasets/Components/ImageLightbox.razor''),
     (''Components/Viewer/ViewerContainer.razor'',
      ''Features/Datasets/Components/ViewerContainer.razor''),
     (''Components/Viewer/ViewerContainer.razor.cs'',
      ''Features/Datasets/Components/ViewerContainer.razor.cs''),
     (''Components/Filter/FilterPanel.razor'',
      ''Features/Datasets/Components/FilterPanel.razor''),
     (''Components/Filter/FilterPanel.razor.cs'',
      ''Features/Datasets/Components/FilterPanel.razor.cs''),
     (''Components/Filter/DateRangeFilter.razor'',
      ''Features/Datasets/Components/DateRangeFilter.razor''),
     (''Components/Filter/FilterChips.razor'',
      ''Features/Datasets/Components/FilterChips.razor''),
     (''Components/Filter/SearchBar.razor'',
      ''Features/Datasets/Components/SearchBar.razor''),
     (''Components/Dialogs/AddTagDialog.razor'',
      ''Features/Datasets/Components/AddTagDialog.razor''),
     (''Components/Settings/ApiKeySettingsPanel.razor'',
      ''Features/Settings/Components/ApiKeySettingsPanel.razor''),
     (''Components/Settings/LanguageSelector.razor'',
      ''Features/Settings/Components/LanguageSelector.razor''),
     (''Components/Settings/ThemeSelector.razor'',
      ''Features/Settings/Components/ThemeSelector.razor''),
     (''Components/Settings/ViewPreferences.razor'',
      ''Features/Settings/Components/ViewPreferences.razor''),
     (''Components/Common/ConfirmDialog.razor'',
      ''Shared/Components/ConfirmDialog.razor''),
     (''Components/Common/DatasetSwitcher.razor'',
      ''Shared/Components/DatasetSwitcher.razor''),
     (''Components/Common/EmptyState.razor'',
      ''Shared/Components/EmptyState.razor''),
     (''Components/Common/ErrorBoundary.razor'',
      ''Shared/Components/ErrorBoundary.razor''),
     (''Components/Common/LayoutSwitcher.razor'',
      ''Shared/Components/LayoutSwitcher.razor''),
     (''Components/Common/LoadingIndicator.razor'',
      ''Shared/Components/LoadingIndicator.razor''),
     (''Layout/MainLayout.razor'',
      ''Shared/Layout/MainLayout.razor''),
     (''Layout/MainLayout.razor.cs'',
      ''Shared/Layout/MainLayout.razor.cs''),
     (''Layout/NavMenu.razor'',
      ''Shared/Layout/NavMenu.razor''),
     (''Layout/NavMenu.razor.cs'',
      ''Shared/Layout/NavMenu.razor.cs''),
     (''Services/Api/DatasetApiClient.cs'',
      ''Services/ApiClients/DatasetApiClient.cs''),
     (''Services/Api/DatasetApiOptions.cs'',
      ''Services/ApiClients/DatasetApiOptions.cs''),
     (''Services/DatasetIndexedDbCache.cs'',
      ''Services/Caching/IndexedDbCache.cs''),
     (''Services/DatasetCacheService.cs'',
      ''Features/Datasets/Services/DatasetCacheService.cs''),
     (''Services/ItemEditService.cs'',
      ''Features/Datasets/Services/ItemEditService.cs''),
     (''Services/ImageUrlHelper.cs'',
      ''Features/Datasets/Services/ImageUrlHelper.cs''),
     (''Services/JsInterop/FileReaderInterop.cs'',
      ''Services/Interop/FileReaderInterop.cs''),
     (''Services/JsInterop/ImageLazyLoadInterop.cs'',
      ''Services/Interop/ImageLazyLoadInterop.cs''),
     (''Services/JsInterop/IndexedDbInterop.cs'',
      ''Services/Interop/IndexedDbInterop.cs''),
     (''Services/JsInterop/LocalStorageInterop.cs'',
      ''Services/Interop/LocalStorageInterop.cs''),
     (''Services/NotificationService.cs'',
      ''Shared/Services/NotificationService.cs''),
     (''Services/NavigationService.cs'',
      ''Shared/Services/NavigationService.cs''),
     (''Services/StateManagement/ApiKeyState.cs'',
      ''Services/StateManagement/ApiKeyState.cs''),
     (''Services/StateManagement/AppState.cs'',
      ''Services/StateManagement/AppState.cs''),
     (''Services/StateManagement/DatasetState.cs'',
      ''Services/StateManagement/DatasetState.cs''),
     (''Services/StateManagement/FilterState.cs'',
      ''Services/StateManagement/FilterState.cs''),
     (''Services/StateManagement/ViewState.cs'',
      ''Services/StateManagement/ViewState.cs''),
     (''Extensions/ServiceCollectionExtensions.cs'',
      ''Extensions/ServiceCollectionExtensions.cs'')]"

text \<open>\<^verbatim>\<open>migrate_file(src_rel, dest_rel)\<close>, lines 133 to 165 of the script.\<close>

definition migrate_file :: "world \<Rightarrow> path \<Rightarrow> path \<Rightarrow> bool outcome" where
  "migrate_file w src_rel dest_rel =
     (let src_path = os_path_join SRC_BASE src_rel;
          dest_path = os_path_join DEST_BASE dest_rel
      in if \<not> os_path_exists w src_path
         then Returns False (print_line w (''  [SKIP] Source not found: '' @ src_rel))
         else
           let dest_dir = os_path_dirname dest_path
           in case os_makedirs w dest_dir of
                Inl e \<Rightarrow> Raises e w
              | Inr w1 \<Rightarrow>
                  (case read_text w1 src_path of
                     Inl e \<Rightarrow>
                       Returns False
                         (print_line w1 (''  [ERROR] Failed to read '' @ src_rel @ '': '' @ e))
                   | Inr content \<Rightarrow>
                       let updated_content = update_content content
                       in case write_text w1 dest_path updated_content of
                            Inr w2 \<Rightarrow>
                              Returns True
                                (print_line w2 (''  [OK] '' @ src_rel @ '' -> '' @ dest_rel))
                          | Inl e \<Rightarrow>
                              Returns False
                                (print_line w1
                                   (''  [ERROR] Failed to write '' @ dest_rel @ '': '' @ e))))"

text \<open>Python's \<^verbatim>\<open>str\<close> of a non-negative integer, for the f-strings of \<^verbatim>\<open>main\<close>.\<close>

fun str_nat :: "nat \<Rightarrow> string" where
  "str_nat n =
     (if n < 10 then [''0123456789'' ! n]
      else str_nat (n div 10) @ [''0123456789'' ! (n mod 10)])"

declare str_nat.simps [simp del]

text \<open>
  The loop of \<^verbatim>\<open>main\<close> over a list of mappings, with the two counters. An exception
  raised by \<^verbatim>\<open>migrate_file\<close> ends the loop.
\<close>

fun migrate_all :: "world \<Rightarrow> (path \<times> path) list \<Rightarrow> nat \<Rightarrow> nat \<Rightarrow> (nat \<times> nat) outcome" where
  "migrate_all w [] success_count fail_count = Returns (success_count, fail_count) w"
| "migrate_all w ((src_rel, dest_rel) # mappings) success_count fail_count =
     (case migrate_file w src_rel dest_rel of
        Raises e w' \<Rightarrow> Raises e w'
      | Returns ok w' \<Rightarrow>
          if ok then migrate_all w' mappings (success_count + 1) fail_count
          else migrate_all w' mappings success_count (fail_count + 1))"

text \<open>
  \<^verbatim>\<open>main()\<close>, with the list it iterates over as a parameter; the script runs it on
  \<^verbatim>\<open>FILE_MAPPINGS\<close>.
\<close>

definition main_on :: "(path \<times> path) list \<Rightarrow> world \<Rightarrow> unit outcome" where
  "main_on mappings w =
     (let w1 = print_line w ''Starting ClientApp migration...'';
          w2 = print_line w1 (''Source: '' @ SRC_BASE);
          w3 = print_line w2 (''Destination: '' @ DEST_BASE);
          w4 = print_line w3 (''Files to migrate: '' @ str_nat (length mappings));
          w5 = print_line w4 []
      in case migrate_all w5 mappings 0 0 of
           Raises e w' \<Rightarrow> Raises e w'
         | Returns (success_count, fail_count) w' \<Rightarrow>
             Returns ()
               (print_line (print_line w' [])
                  (''Migration complete: '' @ str_nat success_count @ '' succeeded, '' @
                   str_nat fail_count @ '' failed'')))"

definition main :: "world \<Rightarrow> unit outcome" where
  "main w = main_on FILE_MAPPINGS w"

text \<open>
  \<^verbatim>\<open>if __name__ == "__main__": main()\<close>: the interpreter exits with status 0 when
  \<^verbatim>\<open>main\<close> returns and with status 1 when an exception reaches the top level.
\<close>

definition exit_status :: "world \<Rightarrow> nat" where
  "exit_status w = (case main w of Returns u w' \<Rightarrow> 0 | Raises e w' \<Rightarrow> 1)"

section \<open>Notions used to state the properties\<close>

subsection \<open>Observing an outcome\<close>

fun result_of :: "'a outcome \<Rightarrow> 'a option" where
  "result_of (Returns x w) = Some x"
| "result_of (Raises e w) = None"

fun raised :: "'a outcome \<Rightarrow> string option" where
  "raised (Raises e w) = Some e"
| "raised (Returns x w) = None"

fun world_of :: "'a outcome \<Rightarrow> world" where
  "world_of (Returns x w) = w"
| "world_of (Raises e w) = w"

text \<open>The text that Python reads from a file in text mode, when the read is not refused.\<close>

definition text_at :: "world \<Rightarrow> path \<Rightarrow> string option" where
  "text_at w p =
     (case nodes w p of Some (File stored) \<Rightarrow> Some (universal_newlines stored) | _ \<Rightarrow> None)"

subsection \<open>Occurrences of patterns\<close>

text \<open>
  Two strings clash when they differ at a position both have: neither is a prefix of
  the other. \<open>each_tail P xs\<close> says that \<open>P\<close> holds of every non-empty suffix of \<open>xs\<close>.
  Both are computed, so that the facts about the concrete rule table are evaluated.
\<close>

fun clash :: "string \<Rightarrow> string \<Rightarrow> bool" where
  "clash (x # xs) (y # ys) = (x \<noteq> y \<or> clash xs ys)"
| "clash _ _ = False"

fun each_tail :: "(string \<Rightarrow> bool) \<Rightarrow> string \<Rightarrow> bool" where
  "each_tail P [] = True"
| "each_tail P (x # xs) = (P (x # xs) \<and> each_tail P xs)"

text \<open>
  A rule passes a block of text \<open>w\<close> when no match of its pattern can reach into the
  block from the left or start inside it: the rule then rewrites the text on both
  sides of the block and leaves the block alone.
\<close>

definition passes :: "string \<Rightarrow> string \<times> string \<Rightarrow> bool" where
  "passes w rule =
     (let pat = re_literal (fst rule)
      in pat \<noteq> [] \<and> each_tail (\<lambda>x. clash x w) (tl pat) \<and> each_tail (clash pat) w)"

text \<open>
  A rule keeps the string \<open>q\<close> out when no occurrence of \<open>q\<close> can overlap an inserted
  replacement: the rule cannot create an occurrence of \<open>q\<close>.
\<close>

definition keeps_out :: "string \<Rightarrow> string \<times> string \<Rightarrow> bool" where
  "keeps_out q rule =
     (re_literal (fst rule) \<noteq> [] \<and> each_tail (\<lambda>t. clash t (snd rule)) q \<and>
      each_tail (clash q) (snd rule))"

text \<open>
  A rule is guarded at a block of text \<open>w\<close> when no match of its pattern can reach into
  the block from the left or start behind its first character, and a match can start
  at its first character only by going on behind the block with one of the strings
  \<open>es\<close>; the replacement of the rule cannot complete one of these strings. Such a rule
  leaves the block alone when none of the strings \<open>es\<close> follows it.
\<close>

definition guarded :: "string \<Rightarrow> string list \<Rightarrow> string \<times> string \<Rightarrow> bool" where
  "guarded w es rule =
     (let pat = re_literal (fst rule)
      in pat \<noteq> [] \<and> each_tail (\<lambda>x. clash x w) (tl pat) \<and> each_tail (clash pat) (tl w) \<and>
         (clash pat w \<or> list_ex (\<lambda>e. pat = w @ e) es) \<and>
         list_all (each_tail (\<lambda>t. clash t (snd rule))) es)"

text \<open>
  The replacement of rule number \<open>k\<close> stands for the pattern of the rule followed by
  the text \<open>w\<close> when the rules before it are guarded at the pattern and \<open>w\<close>, the rule
  matches the pattern there and nowhere in \<open>w\<close>, and the rules behind it pass the
  replacement and \<open>w\<close>.
\<close>

definition stands :: "nat \<Rightarrow> string \<Rightarrow> string list \<Rightarrow> bool" where
  "stands k w es =
     (k < length NAMESPACE_REPLACEMENTS \<and>
      (let pat = re_literal (fst (NAMESPACE_REPLACEMENTS ! k)); repl = snd (NAMESPACE_REPLACEMENTS ! k)
       in pat \<noteq> [] \<and> each_tail (\<lambda>x. clash x pat) (tl pat) \<and> each_tail (clash pat) w \<and>
          list_all (guarded (pat @ w) es) (take k NAMESPACE_REPLACEMENTS) \<and>
          list_all (passes (repl @ w)) (drop (Suc k) NAMESPACE_REPLACEMENTS)))"

text \<open>
  The pairs \<open>(i, j)\<close> of rule numbers (counting from 0) in which rule \<open>j\<close> is the later
  rule and its pattern is a strict prefix of the pattern of the earlier rule \<open>i\<close>.
\<close>

definition prefix_pairs :: "(nat \<times> nat) list" where
  "prefix_pairs =
     concat (map (\<lambda>j. map (\<lambda>i. (i, j))
        (filter (\<lambda>i. strict_prefix (re_literal (fst (NAMESPACE_REPLACEMENTS ! j)))
                                     (re_literal (fst (NAMESPACE_REPLACEMENTS ! i)))) [0..<j]))
        [0..<length NAMESPACE_REPLACEMENTS])"

text \<open>A rule is rooted in \<open>qs\<close> when its pattern starts with one of the strings \<open>qs\<close>.\<close>

definition rooted :: "string list \<Rightarrow> string \<times> string \<Rightarrow> bool" where
  "rooted qs rule =
     (re_literal (fst rule) \<noteq> [] \<and> list_ex (\<lambda>q. prefix q (re_literal (fst rule))) qs)"

text \<open>
  \<open>weave q us t\<close> is the text \<open>u\<^sub>1 q u\<^sub>2 q \<dots> u\<^sub>n q t\<close>. It is cut at the matches that a scan
  from the left finds when no match starts inside a piece \<open>u\<^sub>i\<close> and none occurs in \<open>t\<close>.
\<close>

fun weave :: "string \<Rightarrow> string list \<Rightarrow> string \<Rightarrow> string" where
  "weave q [] t = t"
| "weave q (u # us) t = u @ q @ weave q us t"

definition leftmost_cut :: "string \<Rightarrow> string list \<Rightarrow> string \<Rightarrow> bool" where
  "leftmost_cut q us t \<longleftrightarrow>
     list_all (\<lambda>u. \<not> sublist q (u @ butlast q)) us \<and> \<not> sublist q t"

text \<open>The content when the turn of rule number \<open>k\<close> comes (counting from 0).\<close>

definition content_before :: "nat \<Rightarrow> string \<Rightarrow> string" where
  "content_before k content = apply_rules (take k NAMESPACE_REPLACEMENTS) content"

text \<open>The three rules listed behind the broader rule for \<^verbatim>\<open>Core.Services\<close>, and the table without them.\<close>

definition dead_patterns :: "string list" where
  "dead_patterns =
     [''HartsysDatasetEditor'' @ esc_dot @ ''Core'' @ esc_dot @ ''Services'' @ esc_dot @ ''Layouts'',
      ''HartsysDatasetEditor'' @ esc_dot @ ''Core'' @ esc_dot @ ''Services'' @ esc_dot @ ''Parsers'',
      ''HartsysDatasetEditor'' @ esc_dot @ ''Core'' @ esc_dot @ ''Services'' @ esc_dot @ ''Providers'']"

definition NAMESPACE_REPLACEMENTS_pruned :: "(string \<times> string) list" where
  "NAMESPACE_REPLACEMENTS_pruned =
     filter (\<lambda>rule. fst rule \<notin> set dead_patterns) NAMESPACE_REPLACEMENTS"

subsection \<open>Mappings in a world\<close>

text \<open>
  A mapping is missing when its source path does not exist. It is ready when the source
  is a regular file that can be read and nothing stands in the way of creating the
  destination directory and of writing the destination file.
\<close>

definition missing :: "world \<Rightarrow> path \<times> path \<Rightarrow> bool" where
  "missing w m \<longleftrightarrow> \<not> os_path_exists w (os_path_join SRC_BASE (fst m))"

definition ready :: "world \<Rightarrow> path \<times> path \<Rightarrow> bool" where
  "ready w m \<longleftrightarrow>
     (let src_path = os_path_join SRC_BASE (fst m);
          dest_path = os_path_join DEST_BASE (snd m);
          dest_dir = os_path_dirname dest_path
      in is_file w src_path \<and> read_fault w src_path = None \<and>
         (nodes w dest_dir = Some Dir \<or>
          mkdir_fault w dest_dir = None \<and> \<not> list_ex (is_file w) (ancestors dest_dir)) \<and>
         write_fault w dest_path = None \<and> nodes w dest_path \<noteq> Some Dir)"

text \<open>The console line of a mapping that is missing or ready.\<close>

definition report :: "world \<Rightarrow> path \<times> path \<Rightarrow> string" where
  "report w m =
     (if missing w m then ''  [SKIP] Source not found: '' @ fst m
      else ''  [OK] '' @ fst m @ '' -> '' @ snd m)"

text \<open>
  The destination files of a list of mappings and the directories created for them.
  The mappings are independent when no destination file is one of these directories.
\<close>

definition dest_files :: "(path \<times> path) list \<Rightarrow> path set" where
  "dest_files ms = (\<lambda>m. os_path_join DEST_BASE (snd m)) ` set ms"

definition dest_dirs :: "(path \<times> path) list \<Rightarrow> path set" where
  "dest_dirs ms =
     (\<Union>m \<in> set ms. set (ancestors (os_path_dirname (os_path_join DEST_BASE (snd m)))))"

definition independent :: "(path \<times> path) list \<Rightarrow> bool" where
  "independent ms \<longleftrightarrow> dest_files ms \<inter> dest_dirs ms = {}"

text \<open>
  The loop invariant: the world \<open>wk\<close> reached from \<open>w\<close> differs from it only by
  destination files written and destination directories created.
\<close>

definition evolved :: "(path \<times> path) list \<Rightarrow> world \<Rightarrow> world \<Rightarrow> bool" where
  "evolved ms w wk \<longleftrightarrow>
     mkdir_fault wk = mkdir_fault w \<and> read_fault wk = read_fault w \<and>
     write_fault wk = write_fault w \<and>
     (\<forall>p. nodes wk p = nodes w p \<or>
          (p \<in> dest_files ms \<and> is_file wk p \<and> nodes w p \<noteq> Some Dir) \<or>
          (p \<in> dest_dirs ms \<and> nodes wk p = Some Dir \<and> \<not> is_file w p))"

text \<open>No separator follows the first dot of a relative path: the dot is in the file name.\<close>

fun no_sep_after_dot :: "path \<Rightarrow> bool" where
  "no_sep_after_dot [] = True"
| "no_sep_after_dot (c # cs) =
     (if c = CHR ''.'' then \<not> list_ex is_sep cs else no_sep_after_dot cs)"

subsection \<open>Concrete worlds\<close>

text \<open>
  The concrete worlds are Windows systems, as the base paths are: the line end is
  CR LF, and a path that cannot be opened gives the text of a \<^verbatim>\<open>PermissionError\<close>,
  which ends with the \<^verbatim>\<open>repr\<close> of the path (in quotes, each backslash doubled).
\<close>

definition permission_denied :: "string \<Rightarrow> path \<Rightarrow> string" where
  "permission_denied mode p =
     ''[Errno 13] Permission denied: '' @ [CHR 0x27] @
     concat (map (\<lambda>c. if c = bslash then [bslash, bslash] else [c]) p) @ [CHR 0x27]"

definition empty_world :: world where
  "empty_world = \<lparr>nodes = (\<lambda>p. None), mkdir_fault = (\<lambda>p. None), read_fault = (\<lambda>p. None),
     write_fault = (\<lambda>p. None), open_error = permission_denied, linesep = [CR, LF],
     console = []\<rparr>"

text \<open>A world with one more file, in its directories, or with one more directory.\<close>

definition with_file :: "world \<Rightarrow> path \<Rightarrow> string \<Rightarrow> world" where
  "with_file w p content =
     w\<lparr>nodes := (\<lambda>q. if q = p then Some (File content)
                      else if q \<in> set (ancestors (os_path_dirname p)) then Some Dir
                      else nodes w q)\<rparr>"

definition with_dir :: "world \<Rightarrow> path \<Rightarrow> world" where
  "with_dir w p = w\<lparr>nodes := (\<lambda>q. if q \<in> set (ancestors p) then Some Dir else nodes w q)\<rparr>"

text \<open>Only the first source file exists; nothing else is recorded.\<close>

definition lone_world :: world where
  "lone_world =
     empty_world
       \<lparr>nodes := (\<lambda>p. if p = os_path_join SRC_BASE ''Pages/MyDatasets.razor.cs''
                        then Some (File ''using HartsysDatasetEditor.Client.Pages;'') else None)\<rparr>"

text \<open>The first source file exists, and so does a stale copy at its destination.\<close>

definition ok_world :: world where
  "ok_world =
     with_file
       (with_file empty_world (os_path_join SRC_BASE ''Pages/MyDatasets.razor.cs'')
          (''using HartsysDatasetEditor.Client.Pages;'' @ [CR, LF]))
       (os_path_join DEST_BASE ''Features/Datasets/Pages/DatasetLibrary.razor.cs'') ''stale''"

text \<open>
  The first source file exists and has a line end: stored with LF on a system whose
  line end is CR LF, and stored with CR LF on a system whose line end is LF.
\<close>

definition unix_source_world :: world where
  "unix_source_world =
     with_file empty_world (os_path_join SRC_BASE ''Pages/MyDatasets.razor.cs'')
       (''using HartsysDatasetEditor.Client.Pages;'' @ [LF])"

definition dos_source_world :: world where
  "dos_source_world =
     with_file (empty_world\<lparr>linesep := [LF]\<rparr>)
       (os_path_join SRC_BASE ''Pages/MyDatasets.razor.cs'')
       (''using HartsysDatasetEditor.Client.Pages;'' @ [CR, LF])"

text \<open>
  The first source file exists, and in the destination base directory a regular file
  is named \<^verbatim>\<open>Features\<close>, where the script wants a directory.
\<close>

definition blocked_world :: world where
  "blocked_world =
     with_file
       (with_file empty_world (os_path_join SRC_BASE ''Pages/MyDatasets.razor.cs'')
          ''using HartsysDatasetEditor.Client.Pages;'')
       (os_path_join DEST_BASE ''Features'') []"

text \<open>A directory sits at the path of the first source file.\<close>

definition dir_world :: world where
  "dir_world = with_dir empty_world (os_path_join SRC_BASE ''Pages/MyDatasets.razor.cs'')"

text \<open>
  Two source files exist, those of the first and of the seventh mapping, and a regular
  file is named \<^verbatim>\<open>Pages\<close> where the first mapping wants its destination directory.
  \<open>reordered\<close> is \<^verbatim>\<open>FILE_MAPPINGS\<close> with the seventh mapping moved to the front.
\<close>

definition order_world :: world where
  "order_world =
     with_file
       (with_file
          (with_file empty_world (os_path_join SRC_BASE ''Pages/MyDatasets.razor.cs'')
             ''using HartsysDatasetEditor.Client.Pages;'')
          (os_path_join SRC_BASE ''Components/Dataset/DatasetInfo.razor'')
          ''@using HartsysDatasetEditor.Core.Models'')
       (os_path_join DEST_BASE ''Features/Datasets/Pages'') []"

definition reordered :: "(path \<times> path) list" where
  "reordered = FILE_MAPPINGS ! 6 # take 6 FILE_MAPPINGS @ drop 7 FILE_MAPPINGS"

section \<open>Facts about \<^verbatim>\<open>re.sub\<close> on literal patterns\<close>

lemma clash_not_prefix: "clash xs ys \<Longrightarrow> \<not> prefix xs (ys @ zs)"
  by (induction xs ys rule: clash.induct) auto

lemma clash_not_prefix': "clash xs ys \<Longrightarrow> \<not> prefix ys (xs @ zs)"
  by (induction xs ys rule: clash.induct) auto

lemma each_tail_suffix: "each_tail P xs \<Longrightarrow> suffix t xs \<Longrightarrow> t \<noteq> [] \<Longrightarrow> P t"
  by (induction xs) (auto simp: suffix_Cons)

lemma each_tail_drop: "each_tail P xs \<Longrightarrow> i < length xs \<Longrightarrow> P (drop i xs)"
  by (rule each_tail_suffix) (auto simp: suffix_drop)

lemma sub_all_Nil: "pat \<noteq> [] \<Longrightarrow> sub_all pat repl [] = []"
  by simp

lemma sub_all_hit:
  "pat \<noteq> [] \<Longrightarrow> sub_all pat repl (pat @ s) = repl @ sub_all pat repl s"
  by (cases pat) auto

lemma sub_all_miss:
  "pat \<noteq> [] \<Longrightarrow> \<not> prefix pat (c # cs) \<Longrightarrow> sub_all pat repl (c # cs) = c # sub_all pat repl cs"
  by simp

lemma sub_all_scan_induct [case_names Nil hit miss]:
  assumes "P []"
    and "\<And>c cs. prefix pat (c # cs) \<Longrightarrow> P (drop (length pat - 1) cs) \<Longrightarrow> P (c # cs)"
    and "\<And>c cs. \<not> prefix pat (c # cs) \<Longrightarrow> P cs \<Longrightarrow> P (c # cs)"
  shows "P s"
proof (induction s rule: length_induct)
  case (1 s)
  show ?case
  proof (cases s)
    case Nil
    then show ?thesis using assms(1) by simp
  next
    case (Cons c cs)
    show ?thesis
    proof (cases "prefix pat (c # cs)")
      case True
      have "length (drop (length pat - 1) cs) < length s" using Cons by simp
      with 1 have "P (drop (length pat - 1) cs)" by blast
      from assms(2)[OF True this] Cons show ?thesis by simp
    next
      case False
      have "P cs" using 1 Cons by simp
      from assms(3)[OF False this] Cons show ?thesis by simp
    qed
  qed
qed

lemma sub_all_prefix_back:
  assumes ne: "pat \<noteq> []" and tl: "each_tail (\<lambda>t. clash t repl) q"
  shows "suffix t q \<Longrightarrow> prefix t (sub_all pat repl s) \<Longrightarrow> prefix t s"
proof (induction s arbitrary: t rule: sub_all_scan_induct[where pat = pat])
  case Nil
  then show ?case using ne by simp
next
  case (hit c cs)
  show ?case
  proof (cases "t = []")
    case True
    then show ?thesis by simp
  next
    case False
    have "clash t repl" using each_tail_suffix[OF tl hit.prems(1) False] .
    then have "\<not> prefix t (repl @ sub_all pat repl (drop (length pat - 1) cs))"
      by (rule clash_not_prefix)
    with hit.prems(2) hit.hyps ne show ?thesis by simp
  qed
next
  case (miss c cs)
  show ?case
  proof (cases t)
    case Nil
    then show ?thesis by simp
  next
    case (Cons x t')
    from miss.prems(2) miss.hyps ne Cons have xc: "x = c" and p: "prefix t' (sub_all pat repl cs)"
      by auto
    have "suffix t' q" using miss.prems(1) Cons by (metis suffix_ConsD)
    from miss.IH[OF this p] xc Cons show ?thesis by simp
  qed
qed

lemma sublist_append_cases:
  "sublist q (a @ b) \<Longrightarrow> sublist q b \<or> (\<exists>t. suffix t a \<and> t \<noteq> [] \<and> prefix q (t @ b))"
proof (induction a)
  case Nil
  then show ?case by simp
next
  case (Cons x a)
  from Cons.prems have "prefix q (x # a @ b) \<or> sublist q (a @ b)"
    by (simp add: sublist_Cons_right)
  then show ?case
  proof
    assume "prefix q (x # a @ b)"
    then have "suffix (x # a) (x # a) \<and> x # a \<noteq> [] \<and> prefix q ((x # a) @ b)" by simp
    then show ?thesis by blast
  next
    assume "sublist q (a @ b)"
    from Cons.IH[OF this] show ?thesis
      by (auto simp: suffix_Cons)
  qed
qed

lemma sublist_repl_rest:
  assumes "each_tail (clash q) repl" "sublist q (repl @ rest)"
  shows "sublist q rest"
proof -
  from sublist_append_cases[OF assms(2)] show ?thesis
  proof
    assume "\<exists>t. suffix t repl \<and> t \<noteq> [] \<and> prefix q (t @ rest)"
    then obtain t where t: "suffix t repl" "t \<noteq> []" "prefix q (t @ rest)" by blast
    from each_tail_suffix[OF assms(1) t(1) t(2)] have "clash q t" .
    from clash_not_prefix[OF this] t(3) show ?thesis by blast
  qed
qed

lemma sub_all_sublist_back:
  assumes ne: "pat \<noteq> []" and tl: "each_tail (\<lambda>t. clash t repl) q"
    and inr: "each_tail (clash q) repl"
  shows "sublist q (sub_all pat repl s) \<Longrightarrow> sublist q s"
proof (induction s rule: sub_all_scan_induct[where pat = pat])
  case Nil
  then show ?case using ne by simp
next
  case (hit c cs)
  with ne have "sublist q (repl @ sub_all pat repl (drop (length pat - 1) cs))" by simp
  from sublist_repl_rest[OF inr this]
  have "sublist q (sub_all pat repl (drop (length pat - 1) cs))" .
  from hit.IH[OF this] have "sublist q (drop (length pat - 1) cs)" .
  then have "sublist q cs" by (meson sublist_drop sublist_order.order_trans)
  then show ?case by (simp add: sublist_Cons_right)
next
  case (miss c cs)
  with ne have "sublist q (c # sub_all pat repl cs)" by simp
  then have "prefix q (c # sub_all pat repl cs) \<or> sublist q (sub_all pat repl cs)"
    by (simp add: sublist_Cons_right)
  then show ?case
  proof
    assume "prefix q (c # sub_all pat repl cs)"
    then have "prefix q (sub_all pat repl (c # cs))" using miss.hyps ne by simp
    from sub_all_prefix_back[OF ne tl _ this] have "prefix q (c # cs)" by simp
    then show ?thesis by (simp add: sublist_Cons_right)
  next
    assume "sublist q (sub_all pat repl cs)"
    from miss.IH[OF this] show ?thesis by (simp add: sublist_Cons_right)
  qed
qed

lemma sub_all_removes:
  assumes ne: "pat \<noteq> []" and tl: "each_tail (\<lambda>t. clash t repl) pat"
    and inr: "each_tail (clash pat) repl"
  shows "\<not> sublist pat (sub_all pat repl s)"
proof (induction s rule: sub_all_scan_induct[where pat = pat])
  case Nil
  then show ?case using ne by simp
next
  case (hit c cs)
  have "\<not> sublist pat (repl @ sub_all pat repl (drop (length pat - 1) cs))"
    using sublist_repl_rest[OF inr] hit.IH by blast
  then show ?case using hit.hyps ne by simp
next
  case (miss c cs)
  have "\<not> prefix pat (sub_all pat repl (c # cs))"
    using sub_all_prefix_back[OF ne tl, of pat "c # cs"] miss.hyps by auto
  then show ?case using miss.hyps ne miss.IH by (simp add: sublist_Cons_right)
qed

lemma sub_all_noop: "pat \<noteq> [] \<Longrightarrow> \<not> sublist pat s \<Longrightarrow> sub_all pat repl s = s"
  by (induction s) (auto simp: sublist_Cons_right)

lemma sub_all_eq_back:
  assumes ne: "pat \<noteq> []" and rne: "repl \<noteq> []" and tl: "each_tail (\<lambda>t. clash t repl) q"
  shows "suffix t q \<Longrightarrow> sub_all pat repl s = t \<Longrightarrow> s = t"
proof (induction s arbitrary: t rule: sub_all_scan_induct[where pat = pat])
  case Nil
  then show ?case using ne by simp
next
  case (hit c cs)
  from hit.prems(2) hit.hyps ne have eq: "t = repl @ sub_all pat repl (drop (length pat - 1) cs)"
    by simp
  with rne have "t \<noteq> []" by simp
  from each_tail_suffix[OF tl hit.prems(1) this] have "clash t repl" .
  from clash_not_prefix'[OF this, of "[]"] eq show ?case by simp
next
  case (miss c cs)
  from miss.prems(2) miss.hyps ne have eq: "t = c # sub_all pat repl cs" by simp
  then have "suffix (sub_all pat repl cs) q" using miss.prems(1) by (metis suffix_ConsD)
  from miss.IH[OF this refl] eq show ?case by simp
qed

lemma sub_all_suffix_back:
  assumes ne: "pat \<noteq> []" and rne: "repl \<noteq> []" and tl: "each_tail (\<lambda>t. clash t repl) z"
    and inr: "each_tail (clash z) repl"
  shows "suffix z (sub_all pat repl s) \<Longrightarrow> suffix z s"
proof (induction s rule: sub_all_scan_induct[where pat = pat])
  case Nil
  then show ?case using ne by simp
next
  case (hit c cs)
  let ?rest = "sub_all pat repl (drop (length pat - 1) cs)"
  from hit ne have sz: "suffix z (repl @ ?rest)" by simp
  have "suffix z ?rest"
  proof (rule ccontr)
    assume n: "\<not> suffix z ?rest"
    with sz obtain t where t: "z = t @ ?rest" "suffix t repl"
      by (auto simp: suffix_append)
    with n have "t \<noteq> []" by auto
    from each_tail_suffix[OF inr t(2) this] have "clash z t" .
    from clash_not_prefix'[OF this, of "[]"] t(1) show False by simp
  qed
  from hit.IH[OF this] have "suffix z (drop (length pat - 1) cs)" .
  then show ?case
    by (meson suffix_ConsI suffix_drop suffix_order.order_trans)
next
  case (miss c cs)
  from miss ne have "suffix z (c # sub_all pat repl cs)" by simp
  then have "suffix z (sub_all pat repl cs) \<or> z = c # sub_all pat repl cs"
    by (auto simp: suffix_Cons)
  then show ?case
  proof
    assume "suffix z (sub_all pat repl cs)"
    from miss.IH[OF this] show ?thesis by (simp add: suffix_ConsI)
  next
    assume "z = c # sub_all pat repl cs"
    then have "sub_all pat repl (c # cs) = z" using miss.hyps ne by simp
    from sub_all_eq_back[OF ne rne tl _ this] show ?thesis by simp
  qed
qed

lemma sub_all_split:
  assumes ne: "pat \<noteq> []"
  shows "(\<And>a'. suffix a' a \<Longrightarrow> a' \<noteq> [] \<Longrightarrow> prefix pat (a' @ t) \<Longrightarrow> prefix pat a') \<Longrightarrow>
         sub_all pat repl (a @ t) = sub_all pat repl a @ sub_all pat repl t"
proof (induction a rule: sub_all_scan_induct[where pat = pat])
  case Nil
  then show ?case using ne by simp
next
  case (hit c cs)
  have len: "length pat - 1 \<le> length cs" using prefix_length_le[OF hit.hyps] by simp
  have "sub_all pat repl (drop (length pat - 1) cs @ t) =
        sub_all pat repl (drop (length pat - 1) cs) @ sub_all pat repl t"
  proof (rule hit.IH)
    fix a' assume a: "suffix a' (drop (length pat - 1) cs)" "a' \<noteq> []" "prefix pat (a' @ t)"
    have "suffix a' (c # cs)"
      using a(1) by (meson suffix_ConsI suffix_drop suffix_order.order_trans)
    from hit.prems[OF this a(2) a(3)] show "prefix pat a'" .
  qed
  moreover have "prefix pat (c # cs @ t)" using hit.hyps by (metis append_Cons prefix_prefix)
  ultimately show ?case using hit.hyps ne len by simp
next
  case (miss c cs)
  have "sub_all pat repl (cs @ t) = sub_all pat repl cs @ sub_all pat repl t"
  proof (rule miss.IH)
    fix a' assume a: "suffix a' cs" "a' \<noteq> []" "prefix pat (a' @ t)"
    from miss.prems[OF suffix_ConsI[OF a(1)] a(2) a(3)] show "prefix pat a'" .
  qed
  moreover have "\<not> prefix pat (c # cs @ t)"
    using miss.prems[of "c # cs"] miss.hyps by auto
  ultimately show ?case using miss.hyps ne by simp
qed

lemma guard_no_straddle:
  assumes g: "each_tail (\<lambda>x. clash x w \<or> x = e) (tl pat)"
    and ex: "\<And>z. pat = z @ e \<Longrightarrow> z \<noteq> a'"
    and a: "a' \<noteq> []" and p: "prefix pat (a' @ w @ b)"
  shows "prefix pat a'"
proof (rule ccontr)
  assume n: "\<not> prefix pat a'"
  with p obtain us where us: "pat = a' @ us" "prefix us (w @ b)"
    by (auto simp: prefix_append)
  from n us(1) have une: "us \<noteq> []" by auto
  from a obtain x a'' where "a' = x # a''" by (cases a') auto
  with us(1) have "suffix us (tl pat)" by (simp add: suffix_def)
  from each_tail_suffix[OF g this une] have "clash us w \<or> us = e" .
  then show False
  proof
    assume "clash us w"
    from clash_not_prefix[OF this] us(2) show False by blast
  next
    assume "us = e"
    with us(1) ex show False by blast
  qed
qed

lemma sub_all_inert:
  "pat \<noteq> [] \<Longrightarrow> each_tail (clash pat) w \<Longrightarrow> sub_all pat repl (w @ b) = w @ sub_all pat repl b"
proof (induction w)
  case Nil
  then show ?case by simp
next
  case (Cons x w)
  from Cons.prems(2) have "clash pat (x # w)" and "each_tail (clash pat) w" by simp_all
  from clash_not_prefix[OF this(1), of b] Cons.IH[OF Cons.prems(1) this(2)] Cons.prems(1)
  show ?case by simp
qed

lemma each_tail_mono: "each_tail P xs \<Longrightarrow> (\<And>x. P x \<Longrightarrow> Q x) \<Longrightarrow> each_tail Q xs"
  by (induction xs) auto

lemma re_sub_pass:
  assumes "passes w (p, r)"
  shows "re_sub p r (a @ w @ b) = re_sub p r a @ w @ re_sub p r b"
proof -
  let ?pat = "re_literal p"
  from assms have ne: "?pat \<noteq> []" and g: "each_tail (\<lambda>x. clash x w) (tl ?pat)"
    and i: "each_tail (clash ?pat) w"
    by (simp_all add: passes_def Let_def)
  have g': "each_tail (\<lambda>x. clash x w \<or> x = []) (tl ?pat)"
    by (rule each_tail_mono[OF g]) simp
  have "sub_all ?pat r (a @ w @ b) = sub_all ?pat r a @ sub_all ?pat r (w @ b)"
  proof (rule sub_all_split[OF ne])
    fix a' assume a: "suffix a' a" "a' \<noteq> []" "prefix ?pat (a' @ w @ b)"
    show "prefix ?pat a'"
    proof (cases "?pat = a'")
      case True
      then show ?thesis by simp
    next
      case False
      show ?thesis
        by (rule guard_no_straddle[OF g' _ a(2) a(3)]) (use False in simp)
    qed
  qed
  with sub_all_inert[OF ne i] show ?thesis by (simp add: re_sub_def)
qed

lemma apply_rules_pass:
  "list_all (passes w) rules \<Longrightarrow>
   apply_rules rules (a @ w @ b) = apply_rules rules a @ w @ apply_rules rules b"
proof (induction rules arbitrary: a b)
  case Nil
  then show ?case by simp
next
  case (Cons rule rules)
  obtain p r where rule: "rule = (p, r)" by (cases rule)
  from Cons.prems rule have "passes w (p, r)" "list_all (passes w) rules" by simp_all
  from re_sub_pass[OF this(1)] Cons.IH[OF this(2)] rule show ?case by simp
qed

lemma apply_rules_append:
  "apply_rules (xs @ ys) c = apply_rules ys (apply_rules xs c)"
  by (induction xs arbitrary: c) auto

lemma apply_rules_keep_out:
  "list_all (keeps_out q) rules \<Longrightarrow> \<not> sublist q c \<Longrightarrow> \<not> sublist q (apply_rules rules c)"
proof (induction rules arbitrary: c)
  case Nil
  then show ?case by simp
next
  case (Cons rule rules)
  obtain p r where rule: "rule = (p, r)" by (cases rule)
  from Cons.prems(1) rule have first: "keeps_out q (p, r)"
    and rest: "list_all (keeps_out q) rules"
    by simp_all
  from first have k: "re_literal p \<noteq> []" "each_tail (\<lambda>t. clash t r) q"
    "each_tail (clash q) r"
    by (simp_all add: keeps_out_def)
  have "\<not> sublist q (re_sub p r c)"
    using sub_all_sublist_back[OF k] Cons.prems(2) by (auto simp: re_sub_def)
  from Cons.IH[OF rest this] rule show ?case by simp
qed

lemma re_sub_removes:
  "keeps_out (re_literal p) (p, r) \<Longrightarrow> \<not> sublist (re_literal p) (re_sub p r c)"
  by (simp add: keeps_out_def re_sub_def sub_all_removes)

lemma apply_rules_noop:
  "list_all (rooted qs) rules \<Longrightarrow> (\<And>q. q \<in> set qs \<Longrightarrow> \<not> sublist q c) \<Longrightarrow>
   apply_rules rules c = c"
proof (induction rules)
  case Nil
  then show ?case by simp
next
  case (Cons rule rules)
  obtain p r where rule: "rule = (p, r)" by (cases rule)
  from Cons.prems(1) rule have first: "rooted qs (p, r)"
    and rest: "list_all (rooted qs) rules"
    by simp_all
  from first obtain q where q: "q \<in> set qs" "prefix q (re_literal p)"
    and ne: "re_literal p \<noteq> []"
    by (auto simp: rooted_def list_ex_iff)
  have "\<not> sublist (re_literal p) c"
    using Cons.prems(2)[OF q(1)] q(2)
    by (meson prefix_imp_sublist sublist_order.order_trans)
  then have "re_sub p r c = c" using ne by (simp add: re_sub_def sub_all_noop)
  with Cons.IH[OF rest Cons.prems(2)] rule show ?case by simp
qed

section \<open>Facts about the rule table\<close>

lemma removed_stays:
  assumes k: "k < length rules" and r: "rules ! k = (p, r)"
    and self: "keeps_out (re_literal p) (p, r)"
    and post: "list_all (keeps_out (re_literal p)) (drop (Suc k) rules)"
  shows "\<not> sublist (re_literal p) (apply_rules rules s)"
proof -
  have "rules = take k rules @ (p, r) # drop (Suc k) rules"
    using id_take_nth_drop[OF k] r by simp
  then have "apply_rules rules s =
      apply_rules (drop (Suc k) rules) (re_sub p r (apply_rules (take k rules) s))"
    by (metis apply_rules.simps(2) apply_rules_append)
  with apply_rules_keep_out[OF post re_sub_removes[OF self]] show ?thesis by simp
qed

lemma no_client: "\<not> sublist ''HartsysDatasetEditor.Client'' (update_content s)"
proof -
  have "\<not> sublist (re_literal (''HartsysDatasetEditor'' @ esc_dot @ ''Client''))
          (apply_rules NAMESPACE_REPLACEMENTS s)"
    by (rule removed_stays[where k = 13 and r = "''DatasetStudio.ClientApp''"])
      (simp_all add: NAMESPACE_REPLACEMENTS_def keeps_out_def)
  then show ?thesis by (simp add: update_content_def)
qed

lemma no_core: "\<not> sublist ''HartsysDatasetEditor.Core'' (update_content s)"
proof -
  have "\<not> sublist (re_literal (''HartsysDatasetEditor'' @ esc_dot @ ''Core''))
          (apply_rules NAMESPACE_REPLACEMENTS s)"
    by (rule removed_stays[where k = 21 and r = "''DatasetStudio.Core''"])
      (simp_all add: NAMESPACE_REPLACEMENTS_def keeps_out_def)
  then show ?thesis by (simp add: update_content_def)
qed

lemma no_contracts: "\<not> sublist ''HartsysDatasetEditor.Contracts'' (update_content s)"
proof -
  have "\<not> sublist (re_literal (''HartsysDatasetEditor'' @ esc_dot @ ''Contracts''))
          (apply_rules NAMESPACE_REPLACEMENTS s)"
    by (rule removed_stays[where k = 22 and r = "''DatasetStudio.DTO''"])
      (simp_all add: NAMESPACE_REPLACEMENTS_def keeps_out_def)
  then show ?thesis by (simp add: update_content_def)
qed

lemma all_rooted:
  "list_all (rooted [''HartsysDatasetEditor.Client'', ''HartsysDatasetEditor.Core'',
      ''HartsysDatasetEditor.Contracts'']) NAMESPACE_REPLACEMENTS"
  by (simp add: NAMESPACE_REPLACEMENTS_def rooted_def)

lemma idem: "update_content (update_content s) = update_content s"
proof -
  have "apply_rules NAMESPACE_REPLACEMENTS (update_content s) = update_content s"
    by (rule apply_rules_noop[OF all_rooted]) (use no_client no_core no_contracts in auto)
  then show ?thesis by (simp add: update_content_def)
qed

lemma re_sub_replace:
  assumes ne: "re_literal p \<noteq> []"
    and g: "each_tail (\<lambda>x. clash x (re_literal p)) (tl (re_literal p))"
    and i: "each_tail (clash (re_literal p)) w"
  shows "re_sub p r (a @ re_literal p @ w @ b) = re_sub p r a @ r @ w @ re_sub p r b"
proof -
  let ?pat = "re_literal p"
  have g': "each_tail (\<lambda>x. clash x ?pat \<or> x = []) (tl ?pat)"
    by (rule each_tail_mono[OF g]) simp
  have "sub_all ?pat r (a @ ?pat @ w @ b) = sub_all ?pat r a @ sub_all ?pat r (?pat @ w @ b)"
  proof (rule sub_all_split[OF ne])
    fix a' assume a: "suffix a' a" "a' \<noteq> []" "prefix ?pat (a' @ ?pat @ w @ b)"
    show "prefix ?pat a'"
    proof (cases "?pat = a'")
      case True
      then show ?thesis by simp
    next
      case False
      show ?thesis
        by (rule guard_no_straddle[OF g' _ a(2) a(3)]) (use False in simp)
    qed
  qed
  with sub_all_hit[OF ne] sub_all_inert[OF ne i] show ?thesis by (simp add: re_sub_def)
qed

lemma re_sub_pass_unless:
  assumes ne: "re_literal p \<noteq> []" and pz: "re_literal p = z @ e"
    and g: "each_tail (\<lambda>x. clash x w \<or> x = e) (tl (re_literal p))"
    and i: "each_tail (clash (re_literal p)) w"
    and nz: "\<not> suffix z a"
  shows "re_sub p r (a @ w @ b) = re_sub p r a @ w @ re_sub p r b"
proof -
  let ?pat = "re_literal p"
  have "sub_all ?pat r (a @ w @ b) = sub_all ?pat r a @ sub_all ?pat r (w @ b)"
  proof (rule sub_all_split[OF ne])
    fix a' assume a: "suffix a' a" "a' \<noteq> []" "prefix ?pat (a' @ w @ b)"
    show "prefix ?pat a'"
    proof (rule guard_no_straddle[OF g _ a(2) a(3)])
      fix z' assume "?pat = z' @ e"
      with pz have "z' = z" by simp
      with nz a(1) show "z' \<noteq> a'" by auto
    qed
  qed
  with sub_all_inert[OF ne i] show ?thesis by (simp add: re_sub_def)
qed

lemma nr18: "NAMESPACE_REPLACEMENTS = take 17 NAMESPACE_REPLACEMENTS @
   (''HartsysDatasetEditor'' @ esc_dot @ ''Core'' @ esc_dot @ ''Services'', ''DatasetStudio.Core.BusinessLogic'') # drop 18 NAMESPACE_REPLACEMENTS"
  by (simp add: NAMESPACE_REPLACEMENTS_def)

lemma A17: "list_all (passes ''HartsysDatasetEditor.Core.Services.Providers'') (take 17 NAMESPACE_REPLACEMENTS)"
  by (simp add: NAMESPACE_REPLACEMENTS_def passes_def)

lemma B18: "list_all (passes ''DatasetStudio.Core.BusinessLogic.Providers'') (drop 18 NAMESPACE_REPLACEMENTS)"
  by (simp add: NAMESPACE_REPLACEMENTS_def passes_def)

lemma mid18: "re_sub (''HartsysDatasetEditor'' @ esc_dot @ ''Core'' @ esc_dot @ ''Services'') ''DatasetStudio.Core.BusinessLogic''
    (a @ ''HartsysDatasetEditor.Core.Services.Providers'' @ b) =
   re_sub (''HartsysDatasetEditor'' @ esc_dot @ ''Core'' @ esc_dot @ ''Services'') ''DatasetStudio.Core.BusinessLogic'' a @
   ''DatasetStudio.Core.BusinessLogic.Providers'' @
   re_sub (''HartsysDatasetEditor'' @ esc_dot @ ''Core'' @ esc_dot @ ''Services'') ''DatasetStudio.Core.BusinessLogic'' b"
  using re_sub_replace[of "''HartsysDatasetEditor'' @ esc_dot @ ''Core'' @ esc_dot @ ''Services''"
      "''.Providers''" "''DatasetStudio.Core.BusinessLogic''" a b]
  by simp

lemma apply_rules_at:
  "rules = A @ (p, r) # B \<Longrightarrow>
   apply_rules rules c = apply_rules B (re_sub p r (apply_rules A c))"
  by (simp add: apply_rules_append)

lemma apply_rules_replace_at:
  assumes "rules = A @ (p, r) # B"
    and "list_all (passes w) A"
    and "\<And>a b. re_sub p r (a @ w @ b) = re_sub p r a @ w' @ re_sub p r b"
    and "list_all (passes w') B"
  shows "apply_rules rules (u @ w @ v) = apply_rules rules u @ w' @ apply_rules rules v"
  by (simp add: apply_rules_at[OF assms(1)] apply_rules_pass[OF assms(2)] assms(3)
      apply_rules_pass[OF assms(4)])

lemma providers_in_place:
  "update_content (u @ ''HartsysDatasetEditor.Core.Services.Providers'' @ v) =
   update_content u @ ''DatasetStudio.Core.BusinessLogic.Providers'' @ update_content v"
  unfolding update_content_def by (rule apply_rules_replace_at[OF nr18 A17 mid18 B18])

lemma nr2: "NAMESPACE_REPLACEMENTS =
   (''HartsysDatasetEditor'' @ esc_dot @ ''Client'' @ esc_dot @ ''Pages'', ''DatasetStudio.ClientApp.Features.Datasets.Pages'') #
   (''HartsysDatasetEditor'' @ esc_dot @ ''Client'' @ esc_dot @ ''Components'' @ esc_dot @ ''Dataset'', ''DatasetStudio.ClientApp.Features.Datasets.Components'') #
   drop 2 NAMESPACE_REPLACEMENTS"
  by (simp add: NAMESPACE_REPLACEMENTS_def)

lemma B2: "list_all (passes ''DatasetStudio.ClientApp.Features.Datasets.Pages'') (drop 2 NAMESPACE_REPLACEMENTS)"
  by (simp add: NAMESPACE_REPLACEMENTS_def passes_def)

lemma step1: "re_sub (''HartsysDatasetEditor'' @ esc_dot @ ''Client'' @ esc_dot @ ''Pages'') ''DatasetStudio.ClientApp.Features.Datasets.Pages''
    (a @ ''HartsysDatasetEditor.Client.Pages'' @ b) =
   re_sub (''HartsysDatasetEditor'' @ esc_dot @ ''Client'' @ esc_dot @ ''Pages'') ''DatasetStudio.ClientApp.Features.Datasets.Pages'' a @
   ''DatasetStudio.ClientApp.Features.Datasets.Pages'' @
   re_sub (''HartsysDatasetEditor'' @ esc_dot @ ''Client'' @ esc_dot @ ''Pages'') ''DatasetStudio.ClientApp.Features.Datasets.Pages'' b"
  using re_sub_replace[of "''HartsysDatasetEditor'' @ esc_dot @ ''Client'' @ esc_dot @ ''Pages''"
      "[]" "''DatasetStudio.ClientApp.Features.Datasets.Pages''" a b]
  by simp

lemma step1_suffix:
  "suffix ''HartsysDatasetEditor.Client.Components.''
     (re_sub (''HartsysDatasetEditor'' @ esc_dot @ ''Client'' @ esc_dot @ ''Pages'') ''DatasetStudio.ClientApp.Features.Datasets.Pages'' u)
   \<Longrightarrow> suffix ''HartsysDatasetEditor.Client.Components.'' u"
  unfolding re_sub_def
  by (rule sub_all_suffix_back[where repl = "''DatasetStudio.ClientApp.Features.Datasets.Pages''"
        and pat = "re_literal (''HartsysDatasetEditor'' @ esc_dot @ ''Client'' @ esc_dot @ ''Pages'')"])
     simp_all

lemma step2: "\<not> suffix ''HartsysDatasetEditor.Client.Components.'' a \<Longrightarrow>
   re_sub (''HartsysDatasetEditor'' @ esc_dot @ ''Client'' @ esc_dot @ ''Components'' @ esc_dot @ ''Dataset'') ''DatasetStudio.ClientApp.Features.Datasets.Components''
    (a @ ''DatasetStudio.ClientApp.Features.Datasets.Pages'' @ b) =
   re_sub (''HartsysDatasetEditor'' @ esc_dot @ ''Client'' @ esc_dot @ ''Components'' @ esc_dot @ ''Dataset'') ''DatasetStudio.ClientApp.Features.Datasets.Components'' a @
   ''DatasetStudio.ClientApp.Features.Datasets.Pages'' @
   re_sub (''HartsysDatasetEditor'' @ esc_dot @ ''Client'' @ esc_dot @ ''Components'' @ esc_dot @ ''Dataset'') ''DatasetStudio.ClientApp.Features.Datasets.Components'' b"
  by (rule re_sub_pass_unless[where z = "''HartsysDatasetEditor.Client.Components.''" and e = "''Dataset''"])
     simp_all

lemma length_NR: "length NAMESPACE_REPLACEMENTS = 23"
  by (simp add: NAMESPACE_REPLACEMENTS_def)

lemma no_core_services_at_18:
  "\<not> sublist ''HartsysDatasetEditor.Core.Services'' (content_before 18 c)"
proof -
  have "\<not> sublist (re_literal (''HartsysDatasetEditor'' @ esc_dot @ ''Core'' @ esc_dot @ ''Services''))
          (apply_rules (take 18 NAMESPACE_REPLACEMENTS) c)"
    by (rule removed_stays[where k = 17 and r = "''DatasetStudio.Core.BusinessLogic''"])
      (simp_all add: NAMESPACE_REPLACEMENTS_def keeps_out_def)
  then show ?thesis by (simp add: content_before_def)
qed

lemma dead_rooted:
  "list_all (rooted [''HartsysDatasetEditor.Core.Services'']) (take 3 (drop 18 NAMESPACE_REPLACEMENTS))"
  by (simp add: NAMESPACE_REPLACEMENTS_def rooted_def)

lemma list_all_take: "list_all P xs \<Longrightarrow> list_all P (take j xs)"
  by (auto simp: list_all_iff dest: in_set_takeD)

lemma content_before_dead:
  assumes "j \<le> 3"
  shows "content_before (18 + j) c = content_before 18 c"
proof -
  have "take (18 + j) NAMESPACE_REPLACEMENTS =
        take 18 NAMESPACE_REPLACEMENTS @ take j (take 3 (drop 18 NAMESPACE_REPLACEMENTS))"
    using assms by (simp add: take_add min_def)
  moreover have "apply_rules (take j (take 3 (drop 18 NAMESPACE_REPLACEMENTS))) (content_before 18 c)
      = content_before 18 c"
    by (rule apply_rules_noop[OF list_all_take[OF dead_rooted]])
       (use no_core_services_at_18 in simp)
  ultimately show ?thesis
    by (simp add: content_before_def apply_rules_append)
qed

lemma not_sublist_longer: "\<not> sublist q c \<Longrightarrow> prefix q p \<Longrightarrow> \<not> sublist p c"
  by (meson prefix_imp_sublist sublist_order.order_trans)

lemma pruned_eq:
  "NAMESPACE_REPLACEMENTS_pruned = take 18 NAMESPACE_REPLACEMENTS @ drop 21 NAMESPACE_REPLACEMENTS"
  by code_simp

lemma pruned_same: "update_content c = apply_rules NAMESPACE_REPLACEMENTS_pruned c"
proof -
  have "NAMESPACE_REPLACEMENTS = take 21 NAMESPACE_REPLACEMENTS @ drop 21 NAMESPACE_REPLACEMENTS"
    by simp
  then have "update_content c = apply_rules (drop 21 NAMESPACE_REPLACEMENTS) (content_before 21 c)"
    unfolding update_content_def content_before_def by (metis apply_rules_append)
  also have "content_before 21 c = content_before 18 c"
    using content_before_dead[of 3 c] by simp
  finally show ?thesis
    by (simp add: pruned_eq apply_rules_append content_before_def)
qed

lemma prefix_append_take:
  assumes "prefix q (a @ b)" "length q \<le> length a + n"
  shows "prefix q (a @ take n b)"
proof -
  from assms(1) obtain z where z: "a @ b = q @ z" by (auto simp: prefix_def)
  have "a @ take n b = take (length a + n) (a @ b)" by simp
  also have "\<dots> = take (length a + n) (q @ z)" by (simp only: z)
  also have "\<dots> = q @ take (length a + n - length q) z" using assms(2) by simp
  finally show ?thesis by (simp add: prefix_def)
qed

lemma no_match_starts:
  assumes nm: "\<not> sublist q (u @ butlast q)" and s: "suffix a' u" and ne: "a' \<noteq> []"
  shows "\<not> prefix q (a' @ q @ rest)"
proof
  assume p: "prefix q (a' @ q @ rest)"
  have "length q \<le> length a' + (length q - 1)" using ne by (cases a') auto
  from prefix_append_take[OF p this] have "prefix q (a' @ butlast q)"
    by (simp add: butlast_conv_take)
  then obtain z where "a' @ butlast q = q @ z" by (auto simp: prefix_def)
  moreover from s obtain x where "u = x @ a'" by (auto simp: suffix_def)
  ultimately have "u @ butlast q = x @ q @ z" by simp
  then have "sublist q (u @ butlast q)" by (metis sublist_appendI)
  with nm show False by blast
qed

lemma sub_all_skip:
  assumes ne: "pat \<noteq> []"
  shows "(\<And>a'. suffix a' u \<Longrightarrow> a' \<noteq> [] \<Longrightarrow> \<not> prefix pat (a' @ t)) \<Longrightarrow>
         sub_all pat repl (u @ t) = u @ sub_all pat repl t"
proof (induction u)
  case Nil
  then show ?case by simp
next
  case (Cons c u)
  have "\<not> prefix pat ((c # u) @ t)" using Cons.prems[of "c # u"] by simp
  moreover have "sub_all pat repl (u @ t) = u @ sub_all pat repl t"
    by (rule Cons.IH) (use Cons.prems in \<open>simp add: suffix_ConsI\<close>)
  ultimately show ?case using ne by simp
qed

lemma sub_all_weave:
  assumes ne: "q \<noteq> []"
  shows "leftmost_cut q us t \<Longrightarrow> sub_all q r (weave q us t) = weave r us t"
proof (induction us)
  case Nil
  then show ?case using ne by (simp add: leftmost_cut_def sub_all_noop)
next
  case (Cons u us)
  from Cons.prems have u: "\<not> sublist q (u @ butlast q)" and rest: "leftmost_cut q us t"
    by (simp_all add: leftmost_cut_def)
  have "sub_all q r (u @ q @ weave q us t) = u @ sub_all q r (q @ weave q us t)"
    by (rule sub_all_skip[OF ne]) (rule no_match_starts[OF u])
  with sub_all_hit[OF ne] Cons.IH[OF rest] show ?case by simp
qed

lemma weave_exists:
  assumes ne: "q \<noteq> []"
  shows "\<exists>us t. s = weave q us t \<and> leftmost_cut q us t"
proof (induction s rule: sub_all_scan_induct[where pat = q])
  case Nil
  have "[] = weave q [] [] \<and> leftmost_cut q [] []" using ne by (simp add: leftmost_cut_def)
  then show ?case by blast
next
  case (hit c cs)
  then obtain us t where ih: "drop (length q - 1) cs = weave q us t" "leftmost_cut q us t"
    by blast
  from hit.hyps obtain z where z: "c # cs = q @ z" by (auto simp: prefix_def)
  with ne have "z = drop (length q - 1) cs" by (cases q) auto
  with z ih(1) have "c # cs = weave q ([] # us) t" by simp
  moreover have "\<not> sublist q ([] @ butlast q)"
    using ne sublist_length_le[of q "butlast q"] by (cases q rule: rev_cases) auto
  ultimately have "c # cs = weave q ([] # us) t \<and> leftmost_cut q ([] # us) t"
    using ih(2) by (simp add: leftmost_cut_def)
  then show ?case by blast
next
  case (miss c cs)
  then obtain us t where ih: "cs = weave q us t" "leftmost_cut q us t" by blast
  show ?case
  proof (cases us)
    case Nil
    with ih have "\<not> sublist q cs" "cs = t" by (simp_all add: leftmost_cut_def)
    with miss.hyps have "\<not> sublist q (c # cs)" by (simp add: sublist_Cons_right)
    then have "c # cs = weave q [] (c # cs) \<and> leftmost_cut q [] (c # cs)"
      by (simp add: leftmost_cut_def)
    then show ?thesis by blast
  next
    case (Cons u us')
    with ih have u: "\<not> sublist q (u @ butlast q)" and rest: "leftmost_cut q us' t"
      and cs: "cs = u @ q @ weave q us' t"
      by (simp_all add: leftmost_cut_def)
    have "\<not> prefix q (c # u @ butlast q)"
    proof
      assume "prefix q (c # u @ butlast q)"
      moreover have "prefix (c # u @ butlast q) (c # cs)"
        unfolding cs using ne by (cases q rule: rev_cases) auto
      ultimately show False using miss.hyps by (meson prefix_order.order_trans)
    qed
    with u have "\<not> sublist q ((c # u) @ butlast q)" by (simp add: sublist_Cons_right)
    with rest cs have "c # cs = weave q ((c # u) # us') t \<and> leftmost_cut q ((c # u) # us') t"
      by (simp add: leftmost_cut_def)
    then show ?thesis by blast
  qed
qed

lemma patterns_nonempty: "list_all (\<lambda>rule. re_literal (fst rule) \<noteq> []) NAMESPACE_REPLACEMENTS"
  by (simp add: NAMESPACE_REPLACEMENTS_def)

lemma content_before_Suc:
  assumes "k < length NAMESPACE_REPLACEMENTS"
  shows "content_before (Suc k) content =
     re_sub (fst (NAMESPACE_REPLACEMENTS ! k)) (snd (NAMESPACE_REPLACEMENTS ! k))
       (content_before k content)"
proof -
  obtain p r where pr: "NAMESPACE_REPLACEMENTS ! k = (p, r)" by (cases "NAMESPACE_REPLACEMENTS ! k")
  then show ?thesis
    by (simp add: content_before_def take_Suc_conv_app_nth[OF assms] apply_rules_append)
qed

lemma re_sub_guarded:
  assumes gd: "guarded w es (p, r)" and wne: "w \<noteq> []" and nb: "list_all (\<lambda>e. \<not> prefix e b) es"
  shows "re_sub p r (a @ w @ b) = re_sub p r a @ w @ re_sub p r b"
    and "list_all (\<lambda>e. \<not> prefix e (re_sub p r b)) es"
proof -
  let ?pat = "re_literal p"
  from gd have ne: "?pat \<noteq> []" and g: "each_tail (\<lambda>x. clash x w) (tl ?pat)"
    and i: "each_tail (clash ?pat) (tl w)"
    and hd_case: "clash ?pat w \<or> list_ex (\<lambda>e. ?pat = w @ e) es"
    and bk: "list_all (each_tail (\<lambda>t. clash t r)) es"
    by (simp_all add: guarded_def Let_def)
  have np: "\<not> prefix ?pat (w @ b)"
    using hd_case
  proof
    assume "clash ?pat w"
    then show ?thesis by (rule clash_not_prefix)
  next
    assume "list_ex (\<lambda>e. ?pat = w @ e) es"
    then obtain e where e: "e \<in> set es" "?pat = w @ e" by (auto simp: list_ex_iff)
    with nb have "\<not> prefix e b" by (auto simp: list_all_iff)
    with e(2) show ?thesis by simp
  qed
  have g': "each_tail (\<lambda>x. clash x w \<or> x = []) (tl ?pat)"
    by (rule each_tail_mono[OF g]) simp
  have "sub_all ?pat r (a @ w @ b) = sub_all ?pat r a @ sub_all ?pat r (w @ b)"
  proof (rule sub_all_split[OF ne])
    fix a' assume a: "suffix a' a" "a' \<noteq> []" "prefix ?pat (a' @ w @ b)"
    show "prefix ?pat a'"
    proof (cases "?pat = a'")
      case True
      then show ?thesis by simp
    next
      case False
      show ?thesis
        by (rule guard_no_straddle[OF g' _ a(2) a(3)]) (use False in simp)
    qed
  qed
  moreover have "sub_all ?pat r (w @ b) = w @ sub_all ?pat r b"
  proof -
    from wne obtain c w' where w: "w = c # w'" by (cases w) auto
    with np have "sub_all ?pat r (w @ b) = c # sub_all ?pat r (w' @ b)"
      using ne by simp
    also from i w have "sub_all ?pat r (w' @ b) = w' @ sub_all ?pat r b"
      using sub_all_inert[OF ne] by simp
    finally show ?thesis using w by simp
  qed
  ultimately show "re_sub p r (a @ w @ b) = re_sub p r a @ w @ re_sub p r b"
    by (simp add: re_sub_def)
  show "list_all (\<lambda>e. \<not> prefix e (re_sub p r b)) es"
    unfolding list_all_iff
  proof
    fix e assume e: "e \<in> set es"
    with bk have tl: "each_tail (\<lambda>t. clash t r) e" by (simp add: list_all_iff)
    from e nb have "\<not> prefix e b" by (simp add: list_all_iff)
    with sub_all_prefix_back[OF ne tl, of e b] show "\<not> prefix e (re_sub p r b)"
      by (auto simp: re_sub_def)
  qed
qed

lemma apply_rules_guarded:
  "list_all (guarded w es) rules \<Longrightarrow> w \<noteq> [] \<Longrightarrow> list_all (\<lambda>e. \<not> prefix e b) es \<Longrightarrow>
   apply_rules rules (a @ w @ b) = apply_rules rules a @ w @ apply_rules rules b"
proof (induction rules arbitrary: a b)
  case Nil
  then show ?case by simp
next
  case (Cons rule rules)
  obtain p r where rule: "rule = (p, r)" by (cases rule)
  from Cons.prems(1) rule have first: "guarded w es (p, r)" and rest: "list_all (guarded w es) rules"
    by simp_all
  note step = re_sub_guarded[OF first Cons.prems(2) Cons.prems(3)]
  from Cons.IH[OF rest Cons.prems(2) step(2)] step(1)[of a] rule show ?case by simp
qed

lemma stands_in_place:
  assumes st: "stands k w es" and nv: "list_all (\<lambda>e. \<not> prefix e v) es"
  shows "update_content (u @ re_literal (fst (NAMESPACE_REPLACEMENTS ! k)) @ w @ v) =
         update_content u @ snd (NAMESPACE_REPLACEMENTS ! k) @ w @ update_content v"
proof -
  obtain p r where pr: "NAMESPACE_REPLACEMENTS ! k = (p, r)"
    by (cases "NAMESPACE_REPLACEMENTS ! k")
  let ?A = "take k NAMESPACE_REPLACEMENTS" and ?B = "drop (Suc k) NAMESPACE_REPLACEMENTS"
  from st pr have k: "k < length NAMESPACE_REPLACEMENTS" and ne: "re_literal p \<noteq> []"
    and g: "each_tail (\<lambda>x. clash x (re_literal p)) (tl (re_literal p))"
    and i: "each_tail (clash (re_literal p)) w"
    and A: "list_all (guarded (re_literal p @ w) es) ?A"
    and B: "list_all (passes (r @ w)) ?B"
    by (simp_all add: stands_def Let_def)
  have split: "NAMESPACE_REPLACEMENTS = ?A @ (p, r) # ?B"
    using id_take_nth_drop[OF k] pr by simp
  have wne: "re_literal p @ w \<noteq> []" using ne by simp
  have "apply_rules NAMESPACE_REPLACEMENTS (u @ (re_literal p @ w) @ v) =
        apply_rules ?B (re_sub p r (apply_rules ?A (u @ (re_literal p @ w) @ v)))"
    by (rule apply_rules_at[OF split])
  also have "apply_rules ?A (u @ (re_literal p @ w) @ v) =
        apply_rules ?A u @ (re_literal p @ w) @ apply_rules ?A v"
    by (rule apply_rules_guarded[OF A wne nv])
  also have "re_sub p r (apply_rules ?A u @ (re_literal p @ w) @ apply_rules ?A v) =
        re_sub p r (apply_rules ?A u) @ (r @ w) @ re_sub p r (apply_rules ?A v)"
    using re_sub_replace[OF ne g i, of r "apply_rules ?A u" "apply_rules ?A v"] by simp
  also have "apply_rules ?B (re_sub p r (apply_rules ?A u) @ (r @ w) @ re_sub p r (apply_rules ?A v)) =
        apply_rules ?B (re_sub p r (apply_rules ?A u)) @ (r @ w) @
        apply_rules ?B (re_sub p r (apply_rules ?A v))"
    by (rule apply_rules_pass[OF B])
  also have "apply_rules ?B (re_sub p r (apply_rules ?A u)) = apply_rules NAMESPACE_REPLACEMENTS u"
    by (rule apply_rules_at[OF split, symmetric])
  also have "apply_rules ?B (re_sub p r (apply_rules ?A v)) = apply_rules NAMESPACE_REPLACEMENTS v"
    by (rule apply_rules_at[OF split, symmetric])
  finally show ?thesis by (simp add: update_content_def pr)
qed

lemma plain_stand: "list_all (\<lambda>k. stands k [] []) [1, 2, 3, 4, 5, 6, 7, 8, 9, 10, 12, 14, 15, 16, 17]"
  by code_simp

lemma services_stands: "stands 11 [] [''.Api'', ''.JsInterop'', ''.StateManagement'']"
  by code_simp

lemma layouts_stands: "stands 17 ''.Layouts'' []"
  by code_simp

lemma parsers_stands: "stands 17 ''.Parsers'' []"
  by code_simp

lemma dead_as_tail:
  "re_literal (fst (NAMESPACE_REPLACEMENTS ! 18)) = re_literal (fst (NAMESPACE_REPLACEMENTS ! 17)) @ ''.Layouts''"
  "snd (NAMESPACE_REPLACEMENTS ! 18) = snd (NAMESPACE_REPLACEMENTS ! 17) @ ''.Layouts''"
  "re_literal (fst (NAMESPACE_REPLACEMENTS ! 19)) = re_literal (fst (NAMESPACE_REPLACEMENTS ! 17)) @ ''.Parsers''"
  "snd (NAMESPACE_REPLACEMENTS ! 19) = snd (NAMESPACE_REPLACEMENTS ! 17) @ ''.Parsers''"
  by code_simp+

lemma pages_rule:
  "re_literal (fst (NAMESPACE_REPLACEMENTS ! 0)) = ''HartsysDatasetEditor.Client.Pages''"
  "snd (NAMESPACE_REPLACEMENTS ! 0) = ''DatasetStudio.ClientApp.Features.Datasets.Pages''"
  by code_simp+

lemma earlier_rules:
  "list_all (\<lambda>(i, j). i \<in> set [0, 11, 18, 19, 20] \<or>
      i \<in> set [1, 2, 3, 4, 5, 6, 7, 8, 9, 10, 12, 14, 15, 16, 17]) prefix_pairs"
  by code_simp

lemma pages_stands:
  assumes "\<not> suffix ''HartsysDatasetEditor.Client.Components.'' u"
  shows "update_content (u @ ''HartsysDatasetEditor.Client.Pages'' @ v) =
   update_content u @ ''DatasetStudio.ClientApp.Features.Datasets.Pages'' @ update_content v"
proof -
  have "\<not> suffix ''HartsysDatasetEditor.Client.Components.''
     (re_sub (''HartsysDatasetEditor'' @ esc_dot @ ''Client'' @ esc_dot @ ''Pages'') ''DatasetStudio.ClientApp.Features.Datasets.Pages'' u)"
    using assms step1_suffix by blast
  from step2[OF this] show ?thesis
    unfolding update_content_def
    by (subst (1 2 3) nr2) (simp only: apply_rules.simps step1 apply_rules_pass[OF B2])
qed

lemma all_pairs:
  "prefix_pairs =
     [(8, 11), (9, 11), (10, 11),
      (0, 13), (1, 13), (2, 13), (3, 13), (4, 13), (5, 13), (6, 13), (7, 13), (8, 13), (9, 13),
      (10, 13), (11, 13), (12, 13),
      (14, 21), (15, 21), (16, 21), (17, 21), (18, 21), (19, 21), (20, 21)]"
  by code_simp


section \<open>Properties of \<^verbatim>\<open>update_content\<close>\<close>

text \<open>
  Claim C4. For every input text, \<^verbatim>\<open>update_content\<close> applies the rules of
  \<^verbatim>\<open>NAMESPACE_REPLACEMENTS\<close> one after the other in list order, each to the result of all
  rules before it; a rule replaces every non-overlapping match of its pattern that a
  scan from the left finds, not only the first one, and a pattern without a match
  leaves the text as it is. Every text is cut in exactly this way by every pattern of
  the table, so the statement about the matches covers every input.
\<close>

theorem rules_in_order_replace_all:
  "content_before 0 content = content \<and>
   (\<forall>k < length NAMESPACE_REPLACEMENTS.
      content_before (Suc k) content =
        re_sub (fst (NAMESPACE_REPLACEMENTS ! k)) (snd (NAMESPACE_REPLACEMENTS ! k))
          (content_before k content)) \<and>
   update_content content = content_before (length NAMESPACE_REPLACEMENTS) content \<and>
   (\<forall>(p, r) \<in> set NAMESPACE_REPLACEMENTS.
      (\<forall>s. \<exists>us t. s = weave (re_literal p) us t \<and> leftmost_cut (re_literal p) us t) \<and>
      (\<forall>us t. leftmost_cut (re_literal p) us t \<longrightarrow>
         re_sub p r (weave (re_literal p) us t) = weave r us t) \<and>
      (\<forall>s. \<not> sublist (re_literal p) s \<longrightarrow> re_sub p r s = s))"
proof (intro conjI allI impI)
  show "content_before 0 content = content" by (simp add: content_before_def)
  show "update_content content = content_before (length NAMESPACE_REPLACEMENTS) content"
    by (simp add: content_before_def update_content_def)
  show "content_before (Suc k) content =
        re_sub (fst (NAMESPACE_REPLACEMENTS ! k)) (snd (NAMESPACE_REPLACEMENTS ! k))
          (content_before k content)" if "k < length NAMESPACE_REPLACEMENTS" for k
    by (rule content_before_Suc[OF that])
  show "\<forall>(p, r) \<in> set NAMESPACE_REPLACEMENTS.
      (\<forall>s. \<exists>us t. s = weave (re_literal p) us t \<and> leftmost_cut (re_literal p) us t) \<and>
      (\<forall>us t. leftmost_cut (re_literal p) us t \<longrightarrow>
         re_sub p r (weave (re_literal p) us t) = weave r us t) \<and>
      (\<forall>s. \<not> sublist (re_literal p) s \<longrightarrow> re_sub p r s = s)"
  proof (clarify, intro conjI allI impI)
    fix p r assume "(p, r) \<in> set NAMESPACE_REPLACEMENTS"
    with patterns_nonempty have ne: "re_literal p \<noteq> []" by (auto simp: list_all_iff)
    show "\<exists>us t. s = weave (re_literal p) us t \<and> leftmost_cut (re_literal p) us t" for s
      by (rule weave_exists[OF ne])
    show "re_sub p r (weave (re_literal p) us t) = weave r us t"
      if "leftmost_cut (re_literal p) us t" for us t
      using sub_all_weave[OF ne that] by (simp add: re_sub_def)
    show "re_sub p r s = s" if "\<not> sublist (re_literal p) s" for s
      using sub_all_noop[OF ne that] by (simp add: re_sub_def)
  qed
qed

text \<open>
  The rule for \<^verbatim>\<open>HartsysDatasetEditor\.Core\<close> on a text with two matches, and on a text
  with none.
\<close>

theorem rules_in_order_replace_all_witness:
  "re_sub (''HartsysDatasetEditor'' @ esc_dot @ ''Core'') ''DatasetStudio.Core''
     ''HartsysDatasetEditor.Core and HartsysDatasetEditor.Core'' =
     ''DatasetStudio.Core and DatasetStudio.Core'' \<and>
   re_sub (''HartsysDatasetEditor'' @ esc_dot @ ''Core'') ''DatasetStudio.Core'' ''no match'' =
     ''no match''"
proof -
  let ?p = "''HartsysDatasetEditor'' @ esc_dot @ ''Core''" and ?r = "''DatasetStudio.Core''"
  have mem: "(?p, ?r) \<in> set NAMESPACE_REPLACEMENTS" by (simp add: NAMESPACE_REPLACEMENTS_def)
  have cut: "leftmost_cut (re_literal ?p) [[], '' and ''] []" by code_simp
  have none: "\<not> sublist (re_literal ?p) ''no match''" by code_simp
  have w: "weave (re_literal ?p) [[], '' and ''] [] =
      ''HartsysDatasetEditor.Core and HartsysDatasetEditor.Core''"
    "weave ?r [[], '' and ''] [] = ''DatasetStudio.Core and DatasetStudio.Core''"
    by simp_all
  note all_rules = rules_in_order_replace_all[of "[]", THEN conjunct2, THEN conjunct2, THEN conjunct2]
  from bspec[OF all_rules mem]
  have every: "\<And>us t. leftmost_cut (re_literal ?p) us t \<Longrightarrow>
           re_sub ?p ?r (weave (re_literal ?p) us t) = weave ?r us t"
    and noop: "\<And>s. \<not> sublist (re_literal ?p) s \<Longrightarrow> re_sub ?p ?r s = s"
    by simp_all
  from every[OF cut] noop[OF none] w show ?thesis by simp
qed

text \<open>
  Claim C5 speaks of every two rules in which the pattern of the later rule is a strict
  prefix of the pattern of the earlier rule; the table has 23 such pairs. As it is
  stated it fails in three ways. Behind \<^verbatim>\<open>HartsysDatasetEditor.Client.Components.\<close>
  the replacement of the rule for \<^verbatim>\<open>Client\.Pages\<close> completes the pattern of the second
  rule, which rewrites it, and the output does not contain the replacement. The rule
  for \<^verbatim>\<open>Client\.Services\<close> is the earlier rule of a pair, and it is itself behind three
  rules with longer patterns: where \<^verbatim>\<open>.Api\<close>, \<^verbatim>\<open>.JsInterop\<close> or \<^verbatim>\<open>.StateManagement\<close>
  follows its pattern, one of them has rewritten the text before its turn comes. The
  rule for \<^verbatim>\<open>Core\.Services\.Providers\<close> never matches, and the output never contains
  its replacement in place of its pattern.
\<close>

theorem earlier_rule_not_in_place:
  "(0, 13) \<in> set prefix_pairs \<and> (11, 13) \<in> set prefix_pairs \<and> (20, 21) \<in> set prefix_pairs \<and>
   update_content (''HartsysDatasetEditor.Client.Components.'' @
       re_literal (fst (NAMESPACE_REPLACEMENTS ! 0))) =
     ''DatasetStudio.ClientApp.Features.Datasets.ComponentsStudio.ClientApp.Features.Datasets.Pages'' \<and>
   \<not> sublist (snd (NAMESPACE_REPLACEMENTS ! 0))
       (update_content (''HartsysDatasetEditor.Client.Components.'' @
          re_literal (fst (NAMESPACE_REPLACEMENTS ! 0)))) \<and>
   update_content (re_literal (fst (NAMESPACE_REPLACEMENTS ! 11)) @ ''.Api'') =
     ''DatasetStudio.ClientApp.Services.ApiClients'' \<and>
   update_content (re_literal (fst (NAMESPACE_REPLACEMENTS ! 11)) @ ''.JsInterop'') =
     ''DatasetStudio.ClientApp.Services.Interop'' \<and>
   update_content (re_literal (fst (NAMESPACE_REPLACEMENTS ! 11)) @ ''.StateManagement'') =
     ''DatasetStudio.ClientApp.Services.StateManagement'' \<and>
   \<not> sublist (snd (NAMESPACE_REPLACEMENTS ! 11)) ''DatasetStudio.ClientApp.Services.ApiClients'' \<and>
   \<not> sublist (snd (NAMESPACE_REPLACEMENTS ! 11)) ''DatasetStudio.ClientApp.Services.Interop'' \<and>
   \<not> sublist (snd (NAMESPACE_REPLACEMENTS ! 11))
       ''DatasetStudio.ClientApp.Services.StateManagement'' \<and>
   update_content (re_literal (fst (NAMESPACE_REPLACEMENTS ! 20))) =
     ''DatasetStudio.Core.BusinessLogic.Providers'' \<and>
   \<not> sublist (snd (NAMESPACE_REPLACEMENTS ! 20))
       (update_content (re_literal (fst (NAMESPACE_REPLACEMENTS ! 20))))"
  by code_simp

text \<open>
  Claim C5, amended. For every pair of rules in which the pattern of the later rule is
  a strict prefix of the pattern of the earlier rule, but for the pair whose earlier
  rule is the one for \<^verbatim>\<open>Core\.Services\.Providers\<close> (number 20), and for every input
  text \<open>u P v\<close> in which \<open>P\<close> is the text of the earlier pattern: the output is the
  output for \<open>u\<close>, the replacement of the earlier rule, and the output for \<open>v\<close>. So the
  replacement stands in place of \<open>P\<close>, no later rule has any effect on it, and the text
  before it and the text behind it are rewritten on their own. Two of the earlier
  rules need a condition: for \<^verbatim>\<open>Client\.Pages\<close> (number 0) the text \<open>u\<close> does not end
  with \<^verbatim>\<open>HartsysDatasetEditor.Client.Components.\<close>, and for \<^verbatim>\<open>Client\.Services\<close>
  (number 11) the text \<open>v\<close> does not begin with \<^verbatim>\<open>.Api\<close>, \<^verbatim>\<open>.JsInterop\<close> or
  \<^verbatim>\<open>.StateManagement\<close>. For the rules number 18 and 19, which never match, the rule
  for \<^verbatim>\<open>Core\.Services\<close> leaves the same text as their replacements.
\<close>

theorem earlier_rule_in_place:
  assumes pair: "(i, j) \<in> set prefix_pairs"
    and pages: "i = 0 \<Longrightarrow> \<not> suffix ''HartsysDatasetEditor.Client.Components.'' u"
    and services: "i = 11 \<Longrightarrow>
          \<not> prefix ''.Api'' v \<and> \<not> prefix ''.JsInterop'' v \<and> \<not> prefix ''.StateManagement'' v"
    and providers: "i \<noteq> 20"
  shows "update_content (u @ re_literal (fst (NAMESPACE_REPLACEMENTS ! i)) @ v) =
         update_content u @ snd (NAMESPACE_REPLACEMENTS ! i) @ update_content v"
proof -
  from pair earlier_rules have
    "i \<in> set [0, 11, 18, 19, 20] \<or> i \<in> set [1, 2, 3, 4, 5, 6, 7, 8, 9, 10, 12, 14, 15, 16, 17]"
    unfolding list_all_iff by blast
  with providers consider (plain) "i \<in> set [1, 2, 3, 4, 5, 6, 7, 8, 9, 10, 12, 14, 15, 16, 17]"
    | (pages) "i = 0" | (services) "i = 11" | (layouts) "i = 18" | (parsers) "i = 19"
    by auto
  then show ?thesis
  proof cases
    case plain
    with plain_stand have "stands i [] []" unfolding list_all_iff by blast
    from stands_in_place[OF this, of v u] show ?thesis by simp
  next
    case pages
    from pages_stands[OF assms(2)[OF pages], of v] show ?thesis
      unfolding pages pages_rule .
  next
    case services
    from assms(3)[OF services]
    have "list_all (\<lambda>e. \<not> prefix e v) [''.Api'', ''.JsInterop'', ''.StateManagement'']"
      by simp
    from stands_in_place[OF services_stands this, of u] show ?thesis
      unfolding services by simp
  next
    case layouts
    from stands_in_place[OF layouts_stands, of v u] show ?thesis
      unfolding layouts dead_as_tail by simp
  next
    case parsers
    from stands_in_place[OF parsers_stands, of v u] show ?thesis
      unfolding parsers dead_as_tail by simp
  qed
qed

text \<open>
  The pair of the claim and a \<^verbatim>\<open>using\<close> line of a source file.
\<close>

theorem earlier_rule_in_place_witness:
  "(0, 13) \<in> set prefix_pairs \<and>
   \<not> suffix ''HartsysDatasetEditor.Client.Components.'' ''using '' \<and>
   update_content ''using HartsysDatasetEditor.Client.Pages;'' =
     ''using DatasetStudio.ClientApp.Features.Datasets.Pages;''"
proof -
  have p: "(0, 13) \<in> set prefix_pairs" by code_simp
  have h: "\<not> suffix ''HartsysDatasetEditor.Client.Components.'' ''using ''"
    by code_simp
  have e: "update_content ''using '' = ''using ''" "update_content '';'' = '';''"
    by code_simp+
  from earlier_rule_in_place[OF p h, of "'';''"] p h show ?thesis
    unfolding pages_rule e by simp
qed

text \<open>
  Claim C9. For every input text, the rules for \<^verbatim>\<open>Core.Services.Layouts\<close>,
  \<^verbatim>\<open>Core.Services.Parsers\<close> and \<^verbatim>\<open>Core.Services.Providers\<close> (numbers 18, 19 and 20,
  counting from 0) find no match when their turn comes, since the rule for
  \<^verbatim>\<open>Core.Services\<close> before them has rewritten every occurrence; \<^verbatim>\<open>update_content\<close>
  equals the variant without the three rules; and every occurrence of
  \<^verbatim>\<open>HartsysDatasetEditor.Core.Services.Providers\<close> becomes
  \<^verbatim>\<open>DatasetStudio.Core.BusinessLogic.Providers\<close>, not the \<^verbatim>\<open>Modality\<close> name of the
  rule that never matches.
\<close>

theorem dead_rules:
  "map fst (take 3 (drop 18 NAMESPACE_REPLACEMENTS)) = dead_patterns \<and>
   \<not> sublist (re_literal (fst (NAMESPACE_REPLACEMENTS ! 18))) (content_before 18 c) \<and>
   \<not> sublist (re_literal (fst (NAMESPACE_REPLACEMENTS ! 19))) (content_before 19 c) \<and>
   \<not> sublist (re_literal (fst (NAMESPACE_REPLACEMENTS ! 20))) (content_before 20 c) \<and>
   update_content c = apply_rules NAMESPACE_REPLACEMENTS_pruned c \<and>
   update_content (u @ ''HartsysDatasetEditor.Core.Services.Providers'' @ v) =
     update_content u @ ''DatasetStudio.Core.BusinessLogic.Providers'' @ update_content v"
proof -
  have pats: "map fst (take 3 (drop 18 NAMESPACE_REPLACEMENTS)) = dead_patterns"
    by code_simp
  have pre: "prefix ''HartsysDatasetEditor.Core.Services'' (re_literal (fst (NAMESPACE_REPLACEMENTS ! 18)))"
    "prefix ''HartsysDatasetEditor.Core.Services'' (re_literal (fst (NAMESPACE_REPLACEMENTS ! 19)))"
    "prefix ''HartsysDatasetEditor.Core.Services'' (re_literal (fst (NAMESPACE_REPLACEMENTS ! 20)))"
    by code_simp+
  have b: "content_before 19 c = content_before 18 c" "content_before 20 c = content_before 18 c"
    using content_before_dead[of 1 c] content_before_dead[of 2 c] by simp_all
  show ?thesis
    using pats not_sublist_longer[OF no_core_services_at_18 pre(1)]
      not_sublist_longer[OF no_core_services_at_18 pre(2)]
      not_sublist_longer[OF no_core_services_at_18 pre(3)]
      pruned_same providers_in_place
    by (simp add: b)
qed

text \<open>
  A \<^verbatim>\<open>using\<close> line that names the \<^verbatim>\<open>Providers\<close> namespace.
\<close>

theorem dead_rules_witness:
  "update_content ''using HartsysDatasetEditor.Core.Services.Providers;'' =
     ''using DatasetStudio.Core.BusinessLogic.Providers;''"
proof -
  have "update_content ''using '' = ''using ''" "update_content '';'' = '';''"
    by code_simp+
  with dead_rules[of "''using ''" "''using ''" "'';''"] show ?thesis by simp
qed

text \<open>
  Claim C10 gives as its reason that no replacement, next to any surrounding text,
  contains an occurrence of a pattern. That fails: the replacement of the first rule
  starts with \<^verbatim>\<open>Dataset\<close>, and behind \<^verbatim>\<open>HartsysDatasetEditor.Client.Components.\<close> it
  completes the pattern of the second rule, which occurs neither in that text alone
  nor in the replacement alone. The second rule does match there in a run.
\<close>

theorem juxtaposition_matches:
  "sublist (re_literal (fst (NAMESPACE_REPLACEMENTS ! 1)))
     (''HartsysDatasetEditor.Client.Components.'' @ snd (NAMESPACE_REPLACEMENTS ! 0)) \<and>
   \<not> sublist (re_literal (fst (NAMESPACE_REPLACEMENTS ! 1))) ''HartsysDatasetEditor.Client.Components.'' \<and>
   \<not> sublist (re_literal (fst (NAMESPACE_REPLACEMENTS ! 1))) (snd (NAMESPACE_REPLACEMENTS ! 0)) \<and>
   content_before 1 ''HartsysDatasetEditor.Client.Components.HartsysDatasetEditor.Client.Pages'' =
     ''HartsysDatasetEditor.Client.Components.'' @ snd (NAMESPACE_REPLACEMENTS ! 0) \<and>
   content_before 2 ''HartsysDatasetEditor.Client.Components.HartsysDatasetEditor.Client.Pages'' =
     snd (NAMESPACE_REPLACEMENTS ! 1) @ ''Studio.ClientApp.Features.Datasets.Pages''"
  by code_simp

text \<open>
  Claim C10, amended. \<^verbatim>\<open>update_content\<close> is idempotent for every input text: applying it
  twice gives the same result as applying it once. The reason is that the output of
  one pass contains none of \<^verbatim>\<open>HartsysDatasetEditor.Client\<close>,
  \<^verbatim>\<open>HartsysDatasetEditor.Core\<close> and \<^verbatim>\<open>HartsysDatasetEditor.Contracts\<close>, and every pattern
  of the table starts with one of the three.
\<close>

theorem update_content_idempotent:
  "update_content (update_content s) = update_content s \<and>
   \<not> sublist ''HartsysDatasetEditor.Client'' (update_content s) \<and>
   \<not> sublist ''HartsysDatasetEditor.Core'' (update_content s) \<and>
   \<not> sublist ''HartsysDatasetEditor.Contracts'' (update_content s) \<and>
   list_all (rooted [''HartsysDatasetEditor.Client'', ''HartsysDatasetEditor.Core'',
      ''HartsysDatasetEditor.Contracts'']) NAMESPACE_REPLACEMENTS"
  using idem no_client no_core no_contracts all_rooted by blast

text \<open>
  The text in which a replacement completes a pattern: a second pass changes nothing.
\<close>

theorem update_content_idempotent_witness:
  "update_content (update_content ''HartsysDatasetEditor.Client.Components.HartsysDatasetEditor.Client.Pages'') =
     ''DatasetStudio.ClientApp.Features.Datasets.ComponentsStudio.ClientApp.Features.Datasets.Pages''"
proof -
  have "update_content ''HartsysDatasetEditor.Client.Components.HartsysDatasetEditor.Client.Pages'' =
     ''DatasetStudio.ClientApp.Features.Datasets.ComponentsStudio.ClientApp.Features.Datasets.Pages''"
    by code_simp
  with update_content_idempotent[of "''HartsysDatasetEditor.Client.Components.HartsysDatasetEditor.Client.Pages''"]
  show ?thesis by simp
qed

section \<open>Facts about paths and the operating-system calls\<close>

lemma join_src: "os_path_join SRC_BASE s = SRC_BASE @ bs @ s"
  by (simp add: os_path_join_def SRC_BASE_def is_sep_def)

lemma join_dest: "os_path_join DEST_BASE d = DEST_BASE @ bs @ d"
  by (simp add: os_path_join_def DEST_BASE_def is_sep_def)

lemma src_not_prefix_dest: "\<not> prefix (os_path_join SRC_BASE s) (os_path_join DEST_BASE d @ x)"
  unfolding join_src join_dest by (simp add: SRC_BASE_def DEST_BASE_def)

lemma join_dest_inject: "os_path_join DEST_BASE d = os_path_join DEST_BASE d' \<longleftrightarrow> d = d'"
  by (simp add: join_dest)

lemma join_src_inject: "os_path_join SRC_BASE s = os_path_join SRC_BASE s' \<longleftrightarrow> s = s'"
  by (simp add: join_src)

lemma before_last_sep_cut:
  "before_last_sep p = Some h \<Longrightarrow> \<exists>c rest. is_sep c \<and> p = h @ c # rest"
proof (induction p arbitrary: h)
  case Nil
  then show ?case by simp
next
  case (Cons x p)
  show ?case
  proof (cases "before_last_sep p")
    case None
    with Cons.prems have "is_sep x" "h = []" by (auto split: if_splits)
    then show ?thesis by auto
  next
    case (Some h')
    with Cons.prems have h: "h = x # h'" by simp
    from Cons.IH[OF Some] obtain c rest where "is_sep c" "p = h' @ c # rest" by blast
    with h show ?thesis by auto
  qed
qed

lemma rstrip_seps_cut:
  "\<exists>t. p = rstrip_seps p @ t \<and> (t = [] \<or> is_sep (hd t))"
proof (induction p)
  case Nil
  then show ?case by simp
next
  case (Cons x p)
  then obtain t where t: "p = rstrip_seps p @ t" "t = [] \<or> is_sep (hd t)" by blast
  show ?case
  proof (cases "rstrip_seps p = [] \<and> is_sep x")
    case True
    then have "rstrip_seps (x # p) = []" by (simp add: Let_def)
    with True show ?thesis by simp
  next
    case False
    then have "rstrip_seps (x # p) = x # rstrip_seps p" by (auto simp: Let_def)
    with t show ?thesis by (metis append_Cons)
  qed
qed

lemma dirname_cut:
  assumes "os_path_dirname p \<noteq> []"
  shows "\<exists>c rest. is_sep c \<and> p = os_path_dirname p @ c # rest"
proof -
  from assms obtain h where h: "before_last_sep p = Some h" "os_path_dirname p = rstrip_seps h"
    by (auto simp: os_path_dirname_def split: option.splits)
  from before_last_sep_cut[OF h(1)] obtain c rest where c: "is_sep c" "p = h @ c # rest" by blast
  from rstrip_seps_cut[of h] obtain t where t: "h = rstrip_seps h @ t" "t = [] \<or> is_sep (hd t)"
    by blast
  show ?thesis
  proof (cases t)
    case Nil
    with t c h show ?thesis by auto
  next
    case (Cons y t')
    with t have "is_sep y" by simp
    moreover have "p = os_path_dirname p @ y # (t' @ c # rest)"
      using c(2) t(1) h(2) Cons by (metis append.assoc append_Cons)
    ultimately show ?thesis by blast
  qed
qed

lemma ancestors_Nil: "ancestors [] = []"
  by (simp add: ancestors.simps)

lemma ancestors_nonempty: "q \<noteq> [] \<Longrightarrow> ancestors q = q # ancestors (os_path_dirname q)"
  by (subst ancestors.simps) simp

lemma self_in_ancestors: "q \<noteq> [] \<Longrightarrow> q \<in> set (ancestors q)"
  by (simp add: ancestors_nonempty)

lemma ancestors_cut:
  "a \<in> set (ancestors q) \<Longrightarrow> a = q \<or> (\<exists>c rest. is_sep c \<and> q = a @ c # rest)"
proof (induction q rule: ancestors.induct)
  case (1 p)
  show ?case
  proof (cases "p = []")
    case True
    with "1.prems" show ?thesis by (simp add: ancestors_Nil)
  next
    case False
    with "1.prems" have "a = p \<or> a \<in> set (ancestors (os_path_dirname p))"
      by (simp add: ancestors_nonempty)
    then show ?thesis
    proof
      assume "a = p" then show ?thesis by simp
    next
      assume a: "a \<in> set (ancestors (os_path_dirname p))"
      then have dn: "os_path_dirname p \<noteq> []" by (auto simp: ancestors_Nil)
      from dirname_cut[OF dn] obtain c rest where c: "is_sep c" "p = os_path_dirname p @ c # rest"
        by blast
      from "1.IH"[OF False a] show ?thesis
      proof
        assume "a = os_path_dirname p"
        with c show ?thesis by metis
      next
        assume "\<exists>c' rest'. is_sep c' \<and> os_path_dirname p = a @ c' # rest'"
        then obtain c' rest' where c': "is_sep c'" "os_path_dirname p = a @ c' # rest'" by blast
        have "p = a @ c' # (rest' @ c # rest)" using c(2) c'(2)
          by (metis append.assoc append_Cons)
        with c'(1) show ?thesis by blast
      qed
    qed
  qed
qed

lemma ancestors_dirname_cut:
  assumes "a \<in> set (ancestors (os_path_dirname p))"
  shows "\<exists>c rest. is_sep c \<and> p = a @ c # rest"
proof -
  from assms have dn: "os_path_dirname p \<noteq> []" by (auto simp: ancestors_Nil)
  from dirname_cut[OF dn] obtain c rest where c: "is_sep c" "p = os_path_dirname p @ c # rest"
    by blast
  from ancestors_cut[OF assms] show ?thesis
  proof
    assume "a = os_path_dirname p"
    with c show ?thesis by metis
  next
    assume "\<exists>c' rest'. is_sep c' \<and> os_path_dirname p = a @ c' # rest'"
    then obtain c' rest' where c': "is_sep c'" "os_path_dirname p = a @ c' # rest'" by blast
    have "p = a @ c' # (rest' @ c # rest)" using c(2) c'(2)
      by (metis append.assoc append_Cons)
    with c'(1) show ?thesis by blast
  qed
qed

lemma not_own_ancestor: "p \<notin> set (ancestors (os_path_dirname p))"
  using ancestors_dirname_cut[of p p] by auto

lemma src_not_dest_dir:
  "os_path_join SRC_BASE s \<notin> set (ancestors (os_path_dirname (os_path_join DEST_BASE d)))"
proof
  assume "os_path_join SRC_BASE s \<in> set (ancestors (os_path_dirname (os_path_join DEST_BASE d)))"
  from ancestors_dirname_cut[OF this] obtain c rest
    where "os_path_join DEST_BASE d = os_path_join SRC_BASE s @ c # rest" by blast
  then have "prefix (os_path_join SRC_BASE s) (os_path_join DEST_BASE d @ [])" by (simp add: prefix_def)
  with src_not_prefix_dest show False by blast
qed

lemma src_not_dest: "os_path_join SRC_BASE s \<noteq> os_path_join DEST_BASE d"
  using src_not_prefix_dest[of s d "[]"] by auto

lemma before_last_sep_append_sep:
  "is_sep c \<Longrightarrow> \<exists>h. before_last_sep (x @ c # d) = Some h \<and> prefix x h"
  by (induction x) (auto split: option.splits)

lemma rstrip_seps_nonempty: "\<not> is_sep c \<Longrightarrow> rstrip_seps (c # rest) \<noteq> []"
  by (simp add: Let_def)

lemma dest_dirname_nonempty: "os_path_dirname (os_path_join DEST_BASE d) \<noteq> []"
proof -
  have "is_sep bslash" by (simp add: is_sep_def)
  from before_last_sep_append_sep[OF this, of DEST_BASE d]
  obtain h where h: "before_last_sep (DEST_BASE @ bs @ d) = Some h" "prefix DEST_BASE h"
    by auto
  from h(2) obtain rest where "h = CHR ''c'' # rest"
    by (auto simp: DEST_BASE_def prefix_def)
  moreover have "\<not> is_sep CHR ''c''" by (simp add: is_sep_def)
  ultimately have "rstrip_seps h \<noteq> []" using rstrip_seps_nonempty by blast
  with h(1) show ?thesis by (simp add: join_dest os_path_dirname_def)
qed

lemma print_line_simps [simp]:
  "nodes (print_line w l) = nodes w" "mkdir_fault (print_line w l) = mkdir_fault w"
  "read_fault (print_line w l) = read_fault w" "write_fault (print_line w l) = write_fault w"
  "open_error (print_line w l) = open_error w" "linesep (print_line w l) = linesep w"
  "console (print_line w l) = console w @ [l]"
  by (simp_all add: print_line_def)

lemma os_makedirs_Inr:
  assumes "os_makedirs w d = Inr w1"
  shows "mkdir_fault w1 = mkdir_fault w" "read_fault w1 = read_fault w"
    "write_fault w1 = write_fault w" "console w1 = console w" "nodes w1 d = Some Dir"
    "\<And>p. nodes w1 p \<noteq> nodes w p \<Longrightarrow>
       p \<in> set (ancestors d) \<and> nodes w1 p = Some Dir \<and> \<not> is_file w p"
    "linesep w1 = linesep w" "open_error w1 = open_error w"
proof -
  have ne: "d \<noteq> []" using assms by (auto simp: os_makedirs_def)
  show "mkdir_fault w1 = mkdir_fault w" "read_fault w1 = read_fault w"
    "write_fault w1 = write_fault w" "console w1 = console w"
    "linesep w1 = linesep w" "open_error w1 = open_error w"
    using assms by (auto simp: os_makedirs_def split: if_splits option.splits)
  show "nodes w1 d = Some Dir"
    using assms self_in_ancestors[OF ne]
    by (auto simp: os_makedirs_def split: if_splits option.splits)
  show "p \<in> set (ancestors d) \<and> nodes w1 p = Some Dir \<and> \<not> is_file w p"
    if "nodes w1 p \<noteq> nodes w p" for p
    using assms that
    by (auto simp: os_makedirs_def list_ex_iff split: if_splits option.splits)
qed

lemma os_makedirs_keeps_files:
  assumes "os_makedirs w d = Inr w1" "nodes w1 p = Some (File c)"
  shows "nodes w p = Some (File c)"
  using os_makedirs_Inr(6)[OF assms(1), of p] assms(2) by (cases "nodes w1 p = nodes w p") auto

lemma write_text_Inr:
  assumes "write_text w p c = Inr w2"
  shows "nodes w2 = (nodes w)(p \<mapsto> File (translate_newlines (linesep w) c))"
    "mkdir_fault w2 = mkdir_fault w"
    "read_fault w2 = read_fault w" "write_fault w2 = write_fault w" "console w2 = console w"
  using assms by (auto simp: write_text_def split: option.splits if_splits)

lemma read_text_Inr:
  "read_text w p = Inr c \<longleftrightarrow>
     read_fault w p = None \<and>
     (\<exists>stored. nodes w p = Some (File stored) \<and> c = universal_newlines stored)"
  by (auto simp: read_text_def split: option.splits node.splits)

lemma universal_newlines_Cons:
  "c \<noteq> CR \<Longrightarrow> universal_newlines (c # cs) = c # universal_newlines cs"
  by (cases cs) auto

lemma universal_newlines_no_CR: "CR \<notin> set (universal_newlines s)"
  by (induction s rule: universal_newlines.induct) auto

lemma universal_newlines_id: "CR \<notin> set s \<Longrightarrow> universal_newlines s = s"
  by (induction s) (auto simp: universal_newlines_Cons)

lemma translate_newlines_LF: "translate_newlines [LF] s = s"
  by (induction s) (auto simp: translate_newlines_def)

lemma translate_newlines_Cons:
  "translate_newlines sep (c # cs) = (if c = LF then sep else [c]) @ translate_newlines sep cs"
  by (simp add: translate_newlines_def)

lemma translate_newlines_Nil: "translate_newlines sep [] = []"
  by (simp add: translate_newlines_def)

lemma read_back_CRLF:
  "CR \<notin> set s \<Longrightarrow> universal_newlines (translate_newlines [CR, LF] s) = s"
  by (induction s) (auto simp: translate_newlines_Nil translate_newlines_Cons universal_newlines_Cons)

lemma read_back:
  assumes "CR \<notin> set s" "sep = [LF] \<or> sep = [CR, LF]"
  shows "universal_newlines (translate_newlines sep s) = s"
  using assms read_back_CRLF universal_newlines_id translate_newlines_LF by auto

lemma sub_all_keeps_out_char:
  assumes "c \<notin> set repl"
  shows "c \<notin> set s \<Longrightarrow> c \<notin> set (sub_all pat repl s)"
proof (induction s rule: length_induct)
  case (1 s)
  show ?case
  proof (cases s)
    case Nil
    then show ?thesis using assms by simp
  next
    case (Cons x xs)
    from "1.prems" Cons have x: "c \<noteq> x" and xs: "c \<notin> set xs" by auto
    have a: "c \<notin> set (sub_all pat repl xs)" using "1.IH" Cons xs by simp
    have "c \<notin> set (drop (length pat - 1) xs)" using xs by (meson in_set_dropD)
    then have b: "c \<notin> set (sub_all pat repl (drop (length pat - 1) xs))"
      using "1.IH" Cons by simp
    show ?thesis unfolding Cons using assms x a b by (cases "pat = []") simp_all
  qed
qed

lemma apply_rules_keeps_out_char:
  "list_all (\<lambda>rule. c \<notin> set (snd rule)) rules \<Longrightarrow> c \<notin> set s \<Longrightarrow>
   c \<notin> set (apply_rules rules s)"
proof (induction rules arbitrary: s)
  case Nil
  then show ?case by simp
next
  case (Cons rule rules)
  obtain p r where rule: "rule = (p, r)" by (cases rule)
  from Cons.prems(1) rule have r: "c \<notin> set r" and rest: "list_all (\<lambda>rule. c \<notin> set (snd rule)) rules"
    by simp_all
  have "c \<notin> set (re_sub p r s)"
    unfolding re_sub_def by (rule sub_all_keeps_out_char[OF r Cons.prems(2)])
  from Cons.IH[OF rest this] rule show ?case by simp
qed

lemma replacements_no_CR: "list_all (\<lambda>rule. CR \<notin> set (snd rule)) NAMESPACE_REPLACEMENTS"
  by code_simp

lemma update_content_no_CR: "CR \<notin> set s \<Longrightarrow> CR \<notin> set (update_content s)"
  unfolding update_content_def by (rule apply_rules_keeps_out_char[OF replacements_no_CR])

lemma migrate_file_skip:
  assumes "nodes w (os_path_join SRC_BASE src_rel) = None"
  shows "migrate_file w src_rel dest_rel =
           Returns False (print_line w (''  [SKIP] Source not found: '' @ src_rel))"
  using assms by (simp add: migrate_file_def os_path_exists_def)

lemma migrate_file_raises:
  assumes "nodes w (os_path_join SRC_BASE src_rel) \<noteq> None"
    and "os_makedirs w (os_path_dirname (os_path_join DEST_BASE dest_rel)) = Inl e"
  shows "migrate_file w src_rel dest_rel = Raises e w"
  using assms by (auto simp: migrate_file_def os_path_exists_def Let_def)

lemma migrate_file_read_error:
  assumes "nodes w (os_path_join SRC_BASE src_rel) \<noteq> None"
    and "os_makedirs w (os_path_dirname (os_path_join DEST_BASE dest_rel)) = Inr w1"
    and "read_text w1 (os_path_join SRC_BASE src_rel) = Inl e"
  shows "migrate_file w src_rel dest_rel =
    Returns False (print_line w1 (''  [ERROR] Failed to read '' @ src_rel @ '': '' @ e))"
  using assms by (auto simp: migrate_file_def os_path_exists_def Let_def)

lemma migrate_file_ok:
  assumes "nodes w (os_path_join SRC_BASE src_rel) \<noteq> None"
    and "os_makedirs w (os_path_dirname (os_path_join DEST_BASE dest_rel)) = Inr w1"
    and "read_text w1 (os_path_join SRC_BASE src_rel) = Inr content"
    and "write_text w1 (os_path_join DEST_BASE dest_rel) (update_content content) = Inr w2"
  shows "migrate_file w src_rel dest_rel =
    Returns True (print_line w2 (''  [OK] '' @ src_rel @ '' -> '' @ dest_rel))"
  using assms by (auto simp: migrate_file_def os_path_exists_def Let_def)

lemma rstrip_seps_append: "rstrip_seps h \<noteq> [] \<Longrightarrow> rstrip_seps (x @ h) = x @ rstrip_seps h"
  by (induction x) (auto simp: Let_def)

lemma before_last_sep_append:
  "before_last_sep rel = Some h \<Longrightarrow> before_last_sep (x @ rel) = Some (x @ h)"
  by (induction x) auto

lemma dirname_append:
  assumes "before_last_sep rel = Some h" "rstrip_seps h \<noteq> []"
  shows "os_path_dirname (x @ rel) = x @ rstrip_seps h"
  using assms by (simp add: os_path_dirname_def before_last_sep_append rstrip_seps_append)

lemma dirname_dest:
  assumes "before_last_sep rel = Some h" "rstrip_seps h \<noteq> []"
  shows "os_path_dirname (os_path_join DEST_BASE rel) = os_path_join DEST_BASE (rstrip_seps h)"
  using dirname_append[OF assms, of "DEST_BASE @ bs"] by (simp add: join_dest)

lemma evolved_refl: "evolved ms w w"
  by (simp add: evolved_def)

lemma evolved_print: "evolved ms w wk \<Longrightarrow> evolved ms w (print_line wk l)"
  by (simp add: evolved_def is_file_def)

lemma src_not_in_dest_files: "os_path_join SRC_BASE s \<notin> dest_files ms"
  using src_not_dest by (auto simp: dest_files_def)

lemma src_not_in_dest_dirs: "os_path_join SRC_BASE s \<notin> dest_dirs ms"
  using src_not_dest_dir by (auto simp: dest_dirs_def)

lemma src_untouched:
  "evolved ms w wk \<Longrightarrow> nodes wk (os_path_join SRC_BASE s) = nodes w (os_path_join SRC_BASE s)"
  using src_not_in_dest_files[of s ms] src_not_in_dest_dirs[of s ms]
  by (auto simp: evolved_def)

lemma step_missing:
  assumes "evolved ms w wk" "missing w (s, d)"
  shows "migrate_file wk s d = Returns False (print_line wk (''  [SKIP] Source not found: '' @ s))"
  using assms src_untouched[OF assms(1), of s]
  by (intro migrate_file_skip) (simp add: missing_def os_path_exists_def)

lemma is_file_iff: "is_file w p \<longleftrightarrow> (\<exists>c. nodes w p = Some (File c))"
  by (auto simp: is_file_def split: option.splits node.splits)

lemma step_ready:
  assumes ev: "evolved ms w wk" and ind: "independent ms" and m: "(s, d) \<in> set ms"
    and rdy: "ready w (s, d)"
  shows "\<exists>wk'. migrate_file wk s d = Returns True wk' \<and> evolved ms w wk' \<and>
           console wk' = console wk @ [''  [OK] '' @ s @ '' -> '' @ d]"
proof -
  let ?src = "os_path_join SRC_BASE s" and ?dst = "os_path_join DEST_BASE d"
  let ?dir = "os_path_dirname ?dst"
  from rdy obtain c where c: "nodes w ?src = Some (File c)"
    and rf: "read_fault w ?src = None"
    and mk: "nodes w ?dir = Some Dir \<or>
             mkdir_fault w ?dir = None \<and> \<not> list_ex (is_file w) (ancestors ?dir)"
    and wf: "write_fault w ?dst = None" and nd: "nodes w ?dst \<noteq> Some Dir"
    by (auto simp: ready_def Let_def is_file_iff)
  from ev have faults: "mkdir_fault wk = mkdir_fault w" "read_fault wk = read_fault w"
      "write_fault wk = write_fault w"
    and nodes: "\<And>p. nodes wk p = nodes w p \<or>
          (p \<in> dest_files ms \<and> is_file wk p \<and> nodes w p \<noteq> Some Dir) \<or>
          (p \<in> dest_dirs ms \<and> nodes wk p = Some Dir \<and> \<not> is_file w p)"
    by (auto simp: evolved_def)
  have dst_file: "?dst \<in> dest_files ms" using m by (force simp: dest_files_def)
  have anc_dirs: "set (ancestors ?dir) \<subseteq> dest_dirs ms" using m by (force simp: dest_dirs_def)
  have dir_ne: "?dir \<noteq> []" by (rule dest_dirname_nonempty)
  have dir_in: "?dir \<in> dest_dirs ms" using anc_dirs self_in_ancestors[OF dir_ne] by blast
  have disj: "\<And>p. p \<in> dest_dirs ms \<Longrightarrow> p \<notin> dest_files ms"
    using ind by (auto simp: independent_def)
  have srck: "nodes wk ?src = Some (File c)" using src_untouched[OF ev] c by simp
  \<comment> \<open>the directories\<close>
  have "\<exists>w1. os_makedirs wk ?dir = Inr w1"
  proof (cases "nodes wk ?dir = Some Dir")
    case True
    then show ?thesis using dir_ne by (simp add: os_makedirs_def)
  next
    case False
    have "nodes w ?dir \<noteq> Some Dir"
      using nodes[of ?dir] False disj[OF dir_in] by auto
    with mk have mf: "mkdir_fault w ?dir = None"
      and nf: "\<not> list_ex (is_file w) (ancestors ?dir)" by auto
    have "\<not> list_ex (is_file wk) (ancestors ?dir)"
    proof
      assume "list_ex (is_file wk) (ancestors ?dir)"
      then obtain a where a: "a \<in> set (ancestors ?dir)" "is_file wk a"
        by (auto simp: list_ex_iff)
      from a(1) anc_dirs have "a \<in> dest_dirs ms" by blast
      with nodes[of a] a(2) disj have "is_file w a"
        by (auto simp: is_file_def)
      with a(1) nf show False by (auto simp: list_ex_iff)
    qed
    with False dir_ne mf faults(1) show ?thesis by (simp add: os_makedirs_def)
  qed
  then obtain w1 where w1: "os_makedirs wk ?dir = Inr w1" by blast
  note mkd = os_makedirs_Inr[OF w1]
  \<comment> \<open>the read\<close>
  have src1: "nodes w1 ?src = Some (File c)"
    using mkd(6)[of ?src] srck src_not_dest_dir[of s d] by auto
  let ?t = "update_content (universal_newlines c)"
  have rd: "read_text w1 ?src = Inr (universal_newlines c)"
    using src1 rf faults(2) mkd(2) by (simp add: read_text_Inr)
  \<comment> \<open>the write\<close>
  have dst1: "nodes w1 ?dst = nodes wk ?dst"
    using mkd(6)[of ?dst] not_own_ancestor[of ?dst] by auto
  have "nodes wk ?dst \<noteq> Some Dir"
    using nodes[of ?dst] nd disj[of ?dst] dst_file by (auto simp: is_file_iff)
  with dst1 have nd1: "nodes w1 ?dst \<noteq> Some Dir" by simp
  define w2 where
    "w2 = w1\<lparr>nodes := (nodes w1)(?dst \<mapsto> File (translate_newlines (linesep w1) ?t))\<rparr>"
  have wr: "write_text w1 ?dst ?t = Inr w2"
    using nd1 mkd(5) wf faults(3) mkd(3) by (simp add: write_text_def w2_def)
  let ?wk' = "print_line w2 (''  [OK] '' @ s @ '' -> '' @ d)"
  have res: "migrate_file wk s d = Returns True ?wk'"
    by (rule migrate_file_ok[OF _ w1 rd wr]) (simp add: srck)
  have "evolved ms w ?wk'"
    unfolding evolved_def
  proof (intro conjI allI)
    show "mkdir_fault ?wk' = mkdir_fault w" "read_fault ?wk' = read_fault w"
      "write_fault ?wk' = write_fault w"
      using faults mkd(1,2,3) by (simp_all add: w2_def)
    fix p
    show "nodes ?wk' p = nodes w p \<or>
          (p \<in> dest_files ms \<and> is_file ?wk' p \<and> nodes w p \<noteq> Some Dir) \<or>
          (p \<in> dest_dirs ms \<and> nodes ?wk' p = Some Dir \<and> \<not> is_file w p)"
    proof (cases "p = ?dst")
      case True
      then show ?thesis using dst_file nd by (simp add: w2_def is_file_def)
    next
      case False
      then have eq1: "nodes ?wk' p = nodes w1 p" by (simp add: w2_def)
      show ?thesis
      proof (cases "nodes w1 p = nodes wk p")
        case True
        with eq1 nodes[of p] show ?thesis by (auto simp: is_file_def)
      next
        case False
        from mkd(6)[OF False] have p: "p \<in> set (ancestors ?dir)" "nodes w1 p = Some Dir"
          "\<not> is_file wk p" by auto
        from nodes[of p] p(3) have "\<not> is_file w p" by (auto simp: is_file_def)
        with p anc_dirs eq1 show ?thesis by auto
      qed
    qed
  qed
  moreover have "console ?wk' = console wk @ [''  [OK] '' @ s @ '' -> '' @ d]"
    using mkd(4) by (simp add: w2_def)
  ultimately show ?thesis using res by blast
qed

lemma ready_not_missing: "ready w m \<Longrightarrow> \<not> missing w m"
  by (auto simp: ready_def missing_def Let_def is_file_iff os_path_exists_def)

lemma migrate_all_run:
  assumes ind: "independent ms"
  shows "set rest \<subseteq> set ms \<Longrightarrow> \<forall>m \<in> set rest. missing w m \<or> ready w m \<Longrightarrow> evolved ms w wk \<Longrightarrow>
    \<exists>w'. migrate_all wk rest sc fc =
            Returns (sc + length (filter (ready w) rest), fc + length (filter (missing w) rest)) w' \<and>
          evolved ms w w' \<and> console w' = console wk @ map (report w) rest"
proof (induction rest arbitrary: wk sc fc)
  case Nil
  then show ?case by simp
next
  case (Cons m rest)
  obtain s d where m: "m = (s, d)" by (cases m)
  from Cons.prems have sub: "set rest \<subseteq> set ms" and mem: "(s, d) \<in> set ms"
    and all: "\<forall>m \<in> set rest. missing w m \<or> ready w m"
    and this_one: "missing w (s, d) \<or> ready w (s, d)"
    by (auto simp: m)
  from this_one show ?case
  proof
    assume mis: "missing w (s, d)"
    then have nr: "\<not> ready w (s, d)" using ready_not_missing by blast
    let ?wk' = "print_line wk (''  [SKIP] Source not found: '' @ s)"
    from Cons.IH[OF sub all evolved_print[OF Cons.prems(3)], of _ sc "fc + 1"]
    obtain w' where "migrate_all ?wk' rest sc (fc + 1) =
        Returns (sc + length (filter (ready w) rest), fc + 1 + length (filter (missing w) rest)) w'"
      "evolved ms w w'" "console w' = console ?wk' @ map (report w) rest"
      by blast
    with step_missing[OF Cons.prems(3) mis] mis nr m show ?thesis
      by (simp add: report_def)
  next
    assume rdy: "ready w (s, d)"
    then have nm: "\<not> missing w (s, d)" using ready_not_missing by blast
    from step_ready[OF Cons.prems(3) ind mem rdy] obtain wk'
      where st: "migrate_file wk s d = Returns True wk'" "evolved ms w wk'"
        "console wk' = console wk @ [''  [OK] '' @ s @ '' -> '' @ d]"
      by blast
    from Cons.IH[OF sub all st(2), of "sc + 1" fc]
    obtain w' where "migrate_all wk' rest (sc + 1) fc =
        Returns (sc + 1 + length (filter (ready w) rest), fc + length (filter (missing w) rest)) w'"
      "evolved ms w w'" "console w' = console wk' @ map (report w) rest"
      by blast
    with st rdy nm m show ?thesis
      by (simp add: report_def)
  qed
qed

lemma no_sep_after_dot_cut:
  "no_sep_after_dot (a @ c # rest) \<Longrightarrow> is_sep c \<Longrightarrow> CHR ''.'' \<notin> set a"
  by (induction a) (auto simp: list_ex_iff split: if_splits)

lemma file_names_have_dots:
  "list_all (\<lambda>m. CHR ''.'' \<in> set (snd m) \<and> no_sep_after_dot (snd m)) FILE_MAPPINGS"
  by code_simp

lemma independent_FILE_MAPPINGS: "independent FILE_MAPPINGS"
  unfolding independent_def
proof (rule ccontr)
  assume "dest_files FILE_MAPPINGS \<inter> dest_dirs FILE_MAPPINGS \<noteq> {}"
  then obtain m m' where m: "m \<in> set FILE_MAPPINGS" "m' \<in> set FILE_MAPPINGS"
    and anc: "os_path_join DEST_BASE (snd m') \<in>
       set (ancestors (os_path_dirname (os_path_join DEST_BASE (snd m))))"
    by (auto simp: dest_files_def dest_dirs_def)
  from ancestors_dirname_cut[OF anc] obtain c rest where c: "is_sep c"
    "os_path_join DEST_BASE (snd m) = os_path_join DEST_BASE (snd m') @ c # rest" by blast
  from c(2) have "snd m = snd m' @ c # rest" by (simp add: join_dest)
  moreover from m file_names_have_dots have "CHR ''.'' \<in> set (snd m')" "no_sep_after_dot (snd m)"
    by (auto simp: list_all_iff)
  ultimately show False using no_sep_after_dot_cut[OF _ c(1)] by metis
qed

lemma length_FILE_MAPPINGS: "length FILE_MAPPINGS = 59"
  by (simp add: FILE_MAPPINGS_def)

lemma count_ready:
  assumes "\<forall>m \<in> set ms. missing w m \<or> ready w m"
  shows "length (filter (ready w) ms) = length ms - length (filter (missing w) ms)"
proof -
  have "filter (ready w) ms = filter (\<lambda>m. \<not> missing w m) ms"
    using assms ready_not_missing by (intro filter_cong) auto
  then show ?thesis
    using sum_length_filter_compl[of "missing w" ms] by simp
qed

lemma outcome_eq: "result_of r = Some x \<Longrightarrow> r = Returns x (world_of r)"
  by (cases r) auto

lemma mset_reordered: "mset reordered = mset FILE_MAPPINGS"
proof -
  have swap: "mset (xs ! 6 # take 6 xs @ drop 7 xs) = mset (take 6 xs @ xs ! 6 # drop 7 xs)"
    for xs :: "(path \<times> path) list"
    by simp
  have "6 < length FILE_MAPPINGS" by (simp add: length_FILE_MAPPINGS)
  from id_take_nth_drop[OF this]
  have "take 6 FILE_MAPPINGS @ FILE_MAPPINGS ! 6 # drop 7 FILE_MAPPINGS = FILE_MAPPINGS"
    by simp
  with swap[of FILE_MAPPINGS] show ?thesis
    unfolding reordered_def by simp
qed

lemma in_order: "nodes (world_of (main_on FILE_MAPPINGS order_world))
     (os_path_join DEST_BASE ''Features/Datasets/Components/DatasetInfo.razor'') = None"
    by code_simp

lemma reord: "nodes (world_of (main_on reordered order_world))
     (os_path_join DEST_BASE ''Features/Datasets/Components/DatasetInfo.razor'') =
       Some (File ''@using DatasetStudio.Core.DomainModels'')"
    by code_simp

section \<open>Properties of \<^verbatim>\<open>migrate_file\<close> and \<^verbatim>\<open>main\<close>\<close>

text \<open>
  Claim C1 as it is stated fails for the characters that are stored: the script opens
  both files in text mode, so the line ends of the source are not copied. In
  \<open>unix_source_world\<close> the line end of the platform is CR LF and the source ends with LF;
  in \<open>dos_source_world\<close> the line end of the platform is LF and the source ends with
  CR LF. In both \<^verbatim>\<open>migrate_file\<close> returns true, and the destination does not hold
  \<^verbatim>\<open>update_content\<close> of the source content: its line end is that of the platform.
\<close>

theorem line_ends_not_copied:
  "result_of (migrate_file unix_source_world ''Pages/MyDatasets.razor.cs''
      ''Features/Datasets/Pages/DatasetLibrary.razor.cs'') = Some True \<and>
   nodes unix_source_world (os_path_join SRC_BASE ''Pages/MyDatasets.razor.cs'') =
     Some (File (''using HartsysDatasetEditor.Client.Pages;'' @ [LF])) \<and>
   update_content (''using HartsysDatasetEditor.Client.Pages;'' @ [LF]) =
     ''using DatasetStudio.ClientApp.Features.Datasets.Pages;'' @ [LF] \<and>
   nodes (world_of (migrate_file unix_source_world ''Pages/MyDatasets.razor.cs''
      ''Features/Datasets/Pages/DatasetLibrary.razor.cs''))
     (os_path_join DEST_BASE ''Features/Datasets/Pages/DatasetLibrary.razor.cs'') =
     Some (File (''using DatasetStudio.ClientApp.Features.Datasets.Pages;'' @ [CR, LF])) \<and>
   result_of (migrate_file dos_source_world ''Pages/MyDatasets.razor.cs''
      ''Features/Datasets/Pages/DatasetLibrary.razor.cs'') = Some True \<and>
   nodes dos_source_world (os_path_join SRC_BASE ''Pages/MyDatasets.razor.cs'') =
     Some (File (''using HartsysDatasetEditor.Client.Pages;'' @ [CR, LF])) \<and>
   update_content (''using HartsysDatasetEditor.Client.Pages;'' @ [CR, LF]) =
     ''using DatasetStudio.ClientApp.Features.Datasets.Pages;'' @ [CR, LF] \<and>
   nodes (world_of (migrate_file dos_source_world ''Pages/MyDatasets.razor.cs''
      ''Features/Datasets/Pages/DatasetLibrary.razor.cs''))
     (os_path_join DEST_BASE ''Features/Datasets/Pages/DatasetLibrary.razor.cs'') =
     Some (File (''using DatasetStudio.ClientApp.Features.Datasets.Pages;'' @ [LF]))"
  by code_simp

text \<open>
  Claim C1, amended. When \<^verbatim>\<open>migrate_file\<close> returns true, the source path held a regular
  file that was read without error, and afterwards the destination path holds a file,
  whatever was at the destination path before. Its content is \<^verbatim>\<open>update_content\<close> of
  the source text up to line ends: the source is read with CR LF and CR as LF, and
  every LF is written as the line end of the platform. So the destination, read as
  text, is \<^verbatim>\<open>update_content\<close> of the source read as text (for the line ends LF and
  CR LF of a platform), and it holds \<^verbatim>\<open>update_content\<close> of the stored source
  characters when these contain no CR and the line end of the platform is LF.
\<close>

theorem migrate_file_copies:
  assumes "migrate_file w src_rel dest_rel = Returns True w'"
  shows "\<exists>stored. nodes w (os_path_join SRC_BASE src_rel) = Some (File stored) \<and>
           read_fault w (os_path_join SRC_BASE src_rel) = None \<and>
           nodes w' (os_path_join DEST_BASE dest_rel) =
             Some (File (translate_newlines (linesep w)
                           (update_content (universal_newlines stored)))) \<and>
           (linesep w = [LF] \<or> linesep w = [CR, LF] \<longrightarrow>
              text_at w' (os_path_join DEST_BASE dest_rel) =
                map_option update_content (text_at w (os_path_join SRC_BASE src_rel))) \<and>
           (linesep w = [LF] \<and> CR \<notin> set stored \<longrightarrow>
              nodes w' (os_path_join DEST_BASE dest_rel) = Some (File (update_content stored)))"
proof -
  let ?src = "os_path_join SRC_BASE src_rel" and ?dst = "os_path_join DEST_BASE dest_rel"
  from assms obtain w1 content w2
    where mk: "os_makedirs w (os_path_dirname ?dst) = Inr w1"
      and rd: "read_text w1 ?src = Inr content"
      and wr: "write_text w1 ?dst (update_content content) = Inr w2"
      and w': "w' = print_line w2 (''  [OK] '' @ src_rel @ '' -> '' @ dest_rel)"
    by (auto simp: migrate_file_def Let_def split: if_splits sum.splits)
  from rd obtain stored where rf1: "read_fault w1 ?src = None"
    and st1: "nodes w1 ?src = Some (File stored)" and content: "content = universal_newlines stored"
    by (auto simp: read_text_Inr)
  let ?t = "update_content (universal_newlines stored)"
  from mk rf1 st1 have rf: "read_fault w ?src = None" and st: "nodes w ?src = Some (File stored)"
    by (simp_all add: os_makedirs_Inr(2) os_makedirs_keeps_files)
  have sep: "linesep w1 = linesep w" using os_makedirs_Inr(7)[OF mk] .
  have dst: "nodes w' ?dst = Some (File (translate_newlines (linesep w) ?t))"
    using write_text_Inr(1)[OF wr] w' content sep by simp
  have clean: "CR \<notin> set ?t"
    by (rule update_content_no_CR[OF universal_newlines_no_CR])
  have as_text: "text_at w' ?dst = map_option update_content (text_at w ?src)"
    if "linesep w = [LF] \<or> linesep w = [CR, LF]"
    using read_back[OF clean that] dst st by (simp add: text_at_def)
  have same: "nodes w' ?dst = Some (File (update_content stored))"
    if "linesep w = [LF] \<and> CR \<notin> set stored"
    using that dst by (simp add: translate_newlines_LF universal_newlines_id)
  from st rf dst as_text same show ?thesis by blast
qed

text \<open>
  In \<open>ok_world\<close> the call returns true and the stale destination file is overwritten;
  the line end CR LF of the source is read as LF and written as CR LF.
\<close>

theorem migrate_file_copies_witness:
  "result_of (migrate_file ok_world ''Pages/MyDatasets.razor.cs''
      ''Features/Datasets/Pages/DatasetLibrary.razor.cs'') = Some True \<and>
   nodes ok_world (os_path_join DEST_BASE ''Features/Datasets/Pages/DatasetLibrary.razor.cs'') =
     Some (File ''stale'') \<and>
   nodes (world_of (migrate_file ok_world ''Pages/MyDatasets.razor.cs''
      ''Features/Datasets/Pages/DatasetLibrary.razor.cs''))
     (os_path_join DEST_BASE ''Features/Datasets/Pages/DatasetLibrary.razor.cs'') =
     Some (File (''using DatasetStudio.ClientApp.Features.Datasets.Pages;'' @ [CR, LF])) \<and>
   text_at (world_of (migrate_file ok_world ''Pages/MyDatasets.razor.cs''
      ''Features/Datasets/Pages/DatasetLibrary.razor.cs''))
     (os_path_join DEST_BASE ''Features/Datasets/Pages/DatasetLibrary.razor.cs'') =
     Some (''using DatasetStudio.ClientApp.Features.Datasets.Pages;'' @ [LF])"
proof -
  let ?s = "''Pages/MyDatasets.razor.cs''"
  let ?d = "''Features/Datasets/Pages/DatasetLibrary.razor.cs''"
  have r: "result_of (migrate_file ok_world ?s ?d) = Some True" by code_simp
  have old: "nodes ok_world (os_path_join DEST_BASE ?d) = Some (File ''stale'')" by code_simp
  have src: "nodes ok_world (os_path_join SRC_BASE ?s) =
      Some (File (''using HartsysDatasetEditor.Client.Pages;'' @ [CR, LF]))" by code_simp
  have sep: "linesep ok_world = [CR, LF]" by code_simp
  have upd: "update_content (universal_newlines (''using HartsysDatasetEditor.Client.Pages;'' @ [CR, LF])) =
      ''using DatasetStudio.ClientApp.Features.Datasets.Pages;'' @ [LF]" by code_simp
  have tr: "translate_newlines [CR, LF] (''using DatasetStudio.ClientApp.Features.Datasets.Pages;'' @ [LF]) =
      ''using DatasetStudio.ClientApp.Features.Datasets.Pages;'' @ [CR, LF]" by code_simp
  from migrate_file_copies[OF outcome_eq[OF r]] src
  have "nodes (world_of (migrate_file ok_world ?s ?d)) (os_path_join DEST_BASE ?d) =
          Some (File (translate_newlines (linesep ok_world)
            (update_content (universal_newlines (''using HartsysDatasetEditor.Client.Pages;'' @ [CR, LF])))))"
    and "linesep ok_world = [LF] \<or> linesep ok_world = [CR, LF] \<longrightarrow>
         text_at (world_of (migrate_file ok_world ?s ?d)) (os_path_join DEST_BASE ?d) =
           map_option update_content (text_at ok_world (os_path_join SRC_BASE ?s))"
    by auto
  then have "nodes (world_of (migrate_file ok_world ?s ?d)) (os_path_join DEST_BASE ?d) =
          Some (File (''using DatasetStudio.ClientApp.Features.Datasets.Pages;'' @ [CR, LF]))"
    and "text_at (world_of (migrate_file ok_world ?s ?d)) (os_path_join DEST_BASE ?d) =
          Some (''using DatasetStudio.ClientApp.Features.Datasets.Pages;'' @ [LF])"
    unfolding sep upd tr by (simp_all add: text_at_def src upd)
  with r old show ?thesis by simp
qed

text \<open>
  Claim C2 says that \<^verbatim>\<open>migrate_file\<close> never lets an exception reach its caller, an error
  of \<^verbatim>\<open>os.makedirs\<close> included. The call of \<^verbatim>\<open>os.makedirs\<close> (line 144) stands outside
  both \<^verbatim>\<open>try\<close> blocks: in \<open>blocked_world\<close> the source exists, the directories cannot be
  created, and the exception leaves \<^verbatim>\<open>migrate_file\<close>.
\<close>

theorem makedirs_error_escapes:
  "os_path_exists blocked_world (os_path_join SRC_BASE ''Pages/MyDatasets.razor.cs'') \<and>
   raised (migrate_file blocked_world ''Pages/MyDatasets.razor.cs''
             ''Features/Datasets/Pages/DatasetLibrary.razor.cs'') = Some ''FileExistsError''"
  by code_simp

text \<open>
  Claim C3 as it is stated fails: in \<open>dir_world\<close> the source path is not a readable
  file, it is a directory. It exists, so the script does not skip the mapping: it
  creates the destination directories, fails to read, and prints an error line with
  the text of the exception.
\<close>

theorem directory_source_not_skipped:
  "\<not> is_file dir_world (os_path_join SRC_BASE ''Pages/MyDatasets.razor.cs'') \<and>
   result_of (migrate_file dir_world ''Pages/MyDatasets.razor.cs''
                ''Features/Datasets/Pages/DatasetLibrary.razor.cs'') = Some False \<and>
   console (world_of (migrate_file dir_world ''Pages/MyDatasets.razor.cs''
                ''Features/Datasets/Pages/DatasetLibrary.razor.cs'')) =
     [''  [ERROR] Failed to read Pages/MyDatasets.razor.cs: '' @
      open_error dir_world ''r'' (os_path_join SRC_BASE ''Pages/MyDatasets.razor.cs'')]"
  by code_simp

text \<open>
  Claim C3, amended. For every mapping whose source path does not exist,
  \<^verbatim>\<open>migrate_file\<close> prints the skip line that names the relative source path, returns
  false, and leaves every file and directory as it was.
\<close>

theorem missing_source_skipped:
  assumes "\<not> os_path_exists w (os_path_join SRC_BASE src_rel)"
  shows "\<exists>w'. migrate_file w src_rel dest_rel = Returns False w' \<and>
           console w' = console w @ [''  [SKIP] Source not found: '' @ src_rel] \<and>
           nodes w' = nodes w"
  using assms by (simp add: migrate_file_def)

text \<open>
  In the empty world the first mapping is skipped.
\<close>

theorem missing_source_skipped_witness:
  "\<not> os_path_exists empty_world (os_path_join SRC_BASE ''Pages/MyDatasets.razor.cs'') \<and>
   result_of (migrate_file empty_world ''Pages/MyDatasets.razor.cs''
      ''Features/Datasets/Pages/DatasetLibrary.razor.cs'') = Some False \<and>
   console (world_of (migrate_file empty_world ''Pages/MyDatasets.razor.cs''
      ''Features/Datasets/Pages/DatasetLibrary.razor.cs'')) =
     [''  [SKIP] Source not found: Pages/MyDatasets.razor.cs'']"
proof -
  have h: "\<not> os_path_exists empty_world (os_path_join SRC_BASE ''Pages/MyDatasets.razor.cs'')"
    by (simp add: os_path_exists_def empty_world_def)
  from missing_source_skipped[OF h, of "''Features/Datasets/Pages/DatasetLibrary.razor.cs''"]
  obtain w' where "migrate_file empty_world ''Pages/MyDatasets.razor.cs''
      ''Features/Datasets/Pages/DatasetLibrary.razor.cs'' = Returns False w'"
    "console w' = console empty_world @ [''  [SKIP] Source not found: '' @ ''Pages/MyDatasets.razor.cs'']"
    by blast
  with h show ?thesis by (simp add: empty_world_def)
qed

text \<open>
  Claim C6. In a run of \<^verbatim>\<open>main\<close> in which every mapping of \<^verbatim>\<open>FILE_MAPPINGS\<close> either has
  no source or can be read and written, the loop handles every mapping, one console
  line each in the order of the list, and the last line reports N - M succeeded and
  M failed, where N is the number of mappings and M the number of missing sources.
\<close>

theorem summary_counts:
  assumes "\<forall>m \<in> set FILE_MAPPINGS. missing w m \<or> ready w m"
  shows "\<exists>w'. main w = Returns () w' \<and>
     console w' = console w @
       [''Starting ClientApp migration...'', ''Source: '' @ SRC_BASE,
        ''Destination: '' @ DEST_BASE,
        ''Files to migrate: '' @ str_nat (length FILE_MAPPINGS), []] @
       map (report w) FILE_MAPPINGS @
       [[], ''Migration complete: '' @
            str_nat (length FILE_MAPPINGS - length (filter (missing w) FILE_MAPPINGS)) @
            '' succeeded, '' @ str_nat (length (filter (missing w) FILE_MAPPINGS)) @ '' failed'']"
proof -
  let ?w5 = "print_line (print_line (print_line (print_line (print_line w
      ''Starting ClientApp migration...'') (''Source: '' @ SRC_BASE))
      (''Destination: '' @ DEST_BASE)) (''Files to migrate: '' @ str_nat (length FILE_MAPPINGS))) []"
  have ev: "evolved FILE_MAPPINGS w ?w5"
    by (intro evolved_print evolved_refl)
  from migrate_all_run[OF independent_FILE_MAPPINGS subset_refl assms ev, of 0 0]
  obtain w' where run: "migrate_all ?w5 FILE_MAPPINGS 0 0 =
      Returns (length (filter (ready w) FILE_MAPPINGS), length (filter (missing w) FILE_MAPPINGS)) w'"
    and con: "console w' = console ?w5 @ map (report w) FILE_MAPPINGS"
    by auto
  show ?thesis
    using run con count_ready[OF assms]
    by (simp add: main_def main_on_def Let_def)
qed

text \<open>
  In \<open>lone_world\<close> one source exists and 58 are missing.
\<close>

theorem summary_counts_witness:
  "length (filter (missing lone_world) FILE_MAPPINGS) = 58 \<and>
   result_of (main lone_world) = Some () \<and>
   last (console (world_of (main lone_world))) = ''Migration complete: 1 succeeded, 58 failed''"
proof -
  have h: "\<forall>m \<in> set FILE_MAPPINGS. missing lone_world m \<or> ready lone_world m" by code_simp
  have m: "length (filter (missing lone_world) FILE_MAPPINGS) = 58" by code_simp
  have s: "str_nat (Suc 0) = ''1''" "str_nat 58 = ''58''" by code_simp+
  from summary_counts[OF h] obtain w' where w': "main lone_world = Returns () w'"
    and l: "last (console w') = ''Migration complete: '' @
            str_nat (length FILE_MAPPINGS - length (filter (missing lone_world) FILE_MAPPINGS)) @
            '' succeeded, '' @ str_nat (length (filter (missing lone_world) FILE_MAPPINGS)) @ '' failed''"
    by auto
  have "last (console w') = ''Migration complete: 1 succeeded, 58 failed''"
    unfolding l m length_FILE_MAPPINGS by (simp add: s)
  with w' m show ?thesis by simp
qed

text \<open>
  Claim C7 says that the process always exits with status 0. In \<open>blocked_world\<close> the
  exception of \<^verbatim>\<open>os.makedirs\<close> leaves \<^verbatim>\<open>migrate_file\<close> and \<^verbatim>\<open>main\<close>, and the interpreter
  exits with status 1.
\<close>

theorem makedirs_error_exit_status: "exit_status blocked_world = 1"
  by code_simp

text \<open>
  Claim C8 says that the order of the mappings does not change the destination files.
  In \<open>order_world\<close> the first mapping raises in \<^verbatim>\<open>os.makedirs\<close> and ends the run: in
  the order of the list the seventh mapping is never reached and its destination is
  not written, with the seventh mapping in front it is written before the run ends.
\<close>

theorem order_matters_after_makedirs_error:
  "mset reordered = mset FILE_MAPPINGS \<and>
   raised (main_on FILE_MAPPINGS order_world) = Some ''FileExistsError'' \<and>
   raised (main_on reordered order_world) = Some ''FileExistsError'' \<and>
   nodes (world_of (main_on FILE_MAPPINGS order_world))
     (os_path_join DEST_BASE ''Features/Datasets/Components/DatasetInfo.razor'') = None \<and>
   nodes (world_of (main_on reordered order_world))
     (os_path_join DEST_BASE ''Features/Datasets/Components/DatasetInfo.razor'') =
       Some (File ''@using DatasetStudio.Core.DomainModels'')"
proof -
  have "raised (main_on FILE_MAPPINGS order_world) = Some ''FileExistsError''"
    by code_simp
  moreover have "raised (main_on reordered order_world) = Some ''FileExistsError''"
    by code_simp
  ultimately show ?thesis
    using mset_reordered in_order reord by simp
qed

end
